theory Spec2Isabelle
  imports Main "HOL-Library.AList" "HOL-Library.Multiset"
begin

section \<open>The structural comparator of xcmapping-diff.py\<close>

text \<open>
  This theory embeds the diff engine of
  \<^verbatim>\<open>SideStore/Utils/misc/xcmapping-diff-reporter/xcmapping-diff.py\<close>: key derivation
  (\<^verbatim>\<open>get_object_key\<close> and its helpers), the formatters, the three child-matching
  strategies, the recursive comparator \<^verbatim>\<open>diff_elements\<close> and \<^verbatim>\<open>normalize_path\<close>.

  Modelling conventions.
  \<^item> An \<^verbatim>\<open>xml.etree.ElementTree.Element\<close> is a \<open>node\<close>: tag, attribute dictionary,
    optional text (\<open>None\<close> where ElementTree has \<^verbatim>\<open>text is None\<close>) and the list of
    children.
  \<^item> A Python \<^verbatim>\<open>dict\<close> is an association list in insertion order; storing a key is
    \<open>AList.update\<close> (an existing key keeps its position and takes the new value, a new key
    goes to the end), \<^verbatim>\<open>d.get(k)\<close> is \<open>map_of d k\<close>, \<^verbatim>\<open>d.keys()\<close> is \<open>map fst d\<close>.
  \<^item> A raised exception is \<open>Inl\<close> of an \<open>error\<close>; every function that can raise returns
    \<open>error + 'a\<close>.
  \<^item> The iteration order of a Python \<^verbatim>\<open>set\<close> is unspecified. \<open>set_union\<close> enumerates the
    union without repetition in one fixed order; the properties below that concern a
    set-driven loop are stated for the set of produced records, so they hold for every
    enumeration order.
  \<^item> Strings are lists of 8-bit characters; \<^verbatim>\<open>str.strip()\<close> removes the characters that
    \<^verbatim>\<open>str.isspace\<close> accepts in that range.
  \<^item> The interpreter's recursion limit is not modelled: the comparator recurses to the full
    depth of the trees, and \<^verbatim>\<open>RecursionError\<close> is not among the errors.
\<close>

subsection \<open>Data model\<close>

datatype node =
  Node (tag: string) (attrib: "(string \<times> string) list") (etext: "string option")
       (children: "node list")

datatype error = AttributeError | IndexError | ValueError

datatype pyval = PyNone | PyStr string

type_synonym key = "pyval list"

record diff_info =
  d_category :: string
  d_path :: string
  d_old :: "pyval option"
  d_new :: "pyval option"
  d_type :: "string option"
  d_value :: "string option"

type_synonym diff = "string \<times> diff_info"

definition IGNORED_ATTRIBUTES :: "string set" where
  "IGNORED_ATTRIBUTES =
     {''sourcemodeldata'', ''destinationmodeldata'', ''id'', ''idrefs'', ''mappingnumber''}"

definition CATEGORY_EXTRA :: string where
  "CATEGORY_EXTRA = ''extra in new.xml''"

definition CATEGORY_MISSING :: string where
  "CATEGORY_MISSING = ''missing in new.xml while present in old.xml''"

definition CATEGORY_MISMATCH :: string where
  "CATEGORY_MISMATCH = ''mismatching in old.xml and new.xml''"

definition TYPE_MISMATCH :: string where
  "TYPE_MISMATCH = ''mismatch''"

definition TYPE_MISSING :: string where
  "TYPE_MISSING = ''missing node''"

definition TYPE_EXTRA :: string where
  "TYPE_EXTRA = ''extra node''"

text \<open>A record with only category and path set; the other dictionary keys are absent.\<close>

definition info :: "string \<Rightarrow> string \<Rightarrow> diff_info" where
  "info c p = \<lparr>d_category = c, d_path = p, d_old = None, d_new = None,
               d_type = None, d_value = None\<rparr>"

subsection \<open>Python string and container primitives\<close>

definition is_space :: "char \<Rightarrow> bool" where
  "is_space c =
     (let n = (of_char c :: nat)
      in (9 \<le> n \<and> n \<le> 13) \<or> (28 \<le> n \<and> n \<le> 32) \<or> n = 133 \<or> n = 160)"

definition strip :: "string \<Rightarrow> string" where
  "strip s = rev (dropWhile is_space (rev (dropWhile is_space s)))"

text \<open>\<^verbatim>\<open>(elem.text or "")\<close>\<close>

definition text_or_empty :: "node \<Rightarrow> string" where
  "text_or_empty elem = (case etext elem of None \<Rightarrow> [] | Some t \<Rightarrow> t)"

text \<open>\<^verbatim>\<open>elem.get(name)\<close>\<close>

definition get :: "node \<Rightarrow> string \<Rightarrow> string option" where
  "get elem name = map_of (attrib elem) name"

definition py_of :: "string option \<Rightarrow> pyval" where
  "py_of v = (case v of None \<Rightarrow> PyNone | Some s \<Rightarrow> PyStr s)"

text \<open>\<^verbatim>\<open>str(v)\<close> of a string or \<^verbatim>\<open>None\<close>, as an f-string renders it.\<close>

fun py_str :: "pyval \<Rightarrow> string" where
  "py_str PyNone = ''None''"
| "py_str (PyStr s) = s"

fun starts_with :: "string \<Rightarrow> string \<Rightarrow> bool" where
  "starts_with [] s = True"
| "starts_with (p # ps) [] = False"
| "starts_with (p # ps) (c # cs) = (p = c \<and> starts_with ps cs)"

text \<open>\<^verbatim>\<open>sub in s\<close>\<close>

fun str_contains :: "string \<Rightarrow> string \<Rightarrow> bool" where
  "str_contains sub [] = (sub = [])"
| "str_contains sub (c # cs) = (starts_with sub (c # cs) \<or> str_contains sub cs)"

definition ends_with :: "string \<Rightarrow> string \<Rightarrow> bool" where
  "ends_with suf s = starts_with (rev suf) (rev s)"

text \<open>
  \<^verbatim>\<open>s.replace(old, new)\<close> for a non-empty \<open>old\<close>: the occurrences are replaced from the
  left, without overlap. (The source calls it with \<^verbatim>\<open>"object["\<close> only; for an empty
  \<open>old\<close> this function returns \<open>s\<close>, whereas Python interleaves \<open>new\<close>.)
\<close>

function str_replace :: "string \<Rightarrow> string \<Rightarrow> string \<Rightarrow> string" where
  "str_replace old new [] = []"
| "str_replace old new (c # cs) =
     (if old \<noteq> [] \<and> starts_with old (c # cs)
      then new @ str_replace old new (drop (length old) (c # cs))
      else c # str_replace old new cs)"
  by pat_completeness auto
termination
  by (relation "measure (\<lambda>(old, new, s). length s)") auto

definition digit_char :: "nat \<Rightarrow> char" where
  "digit_char d = ''0123456789'' ! d"

text \<open>\<^verbatim>\<open>str(i)\<close> of a non-negative integer.\<close>

fun str_nat :: "nat \<Rightarrow> string" where
  "str_nat n = (if n < 10 then [digit_char n] else str_nat (n div 10) @ [digit_char (n mod 10)])"

declare str_nat.simps [simp del]

text \<open>\<^verbatim>\<open>xs.index(x)\<close>: the first position of \<open>x\<close>, \<^verbatim>\<open>ValueError\<close> when there is none.\<close>

fun list_index :: "'a list \<Rightarrow> 'a \<Rightarrow> error + nat" where
  "list_index [] x = Inl ValueError"
| "list_index (y # ys) x =
     (if y = x then Inr 0
      else (case list_index ys x of Inl e \<Rightarrow> Inl e | Inr i \<Rightarrow> Inr (Suc i)))"

text \<open>
  The elements of \<^verbatim>\<open>set(a).union(b)\<close> in the order a loop visits them. Python leaves the
  order open; the model takes one enumeration without repetition.
\<close>

definition set_union :: "'a list \<Rightarrow> 'a list \<Rightarrow> 'a list" where
  "set_union a b = remdups (a @ b)"

text \<open>
  \<^verbatim>\<open>for x in xs: diffs.extend(f(x))\<close>: the results are concatenated in order, and the first
  exception leaves the loop.
\<close>

fun extend_each :: "('a \<Rightarrow> error + 'b list) \<Rightarrow> 'a list \<Rightarrow> error + 'b list" where
  "extend_each f [] = Inr []"
| "extend_each f (x # xs) =
     (case f x of
        Inl e \<Rightarrow> Inl e
      | Inr ds \<Rightarrow> (case extend_each f xs of Inl e \<Rightarrow> Inl e | Inr ds' \<Rightarrow> Inr (ds @ ds')))"

lemma extend_each_cong [fundef_cong]:
  "xs = ys \<Longrightarrow> (\<And>x. x \<in> set ys \<Longrightarrow> f x = g x) \<Longrightarrow> extend_each f xs = extend_each g ys"
proof -
  assume eq: "xs = ys" and fg: "\<And>x. x \<in> set ys \<Longrightarrow> f x = g x"
  from fg have "extend_each f ys = extend_each g ys"
    by (induction ys) (auto split: sum.splits)
  with eq show ?thesis by simp
qed

subsection \<open>Key derivation\<close>

text \<open>\<^verbatim>\<open>elem.find("attribute[@name='<name>']")\<close>: the first child with tag
  \<^verbatim>\<open>attribute\<close> whose \<^verbatim>\<open>name\<close> attribute is the given one.\<close>

definition find_attribute :: "node \<Rightarrow> string \<Rightarrow> node option" where
  "find_attribute elem name =
     find (\<lambda>c. tag c = ''attribute'' \<and> get c ''name'' = Some name) (children elem)"

text \<open>
  \<^verbatim>\<open>x.text.strip() if x is not None else ""\<close>. When the sub-element is present and its text
  is \<^verbatim>\<open>None\<close>, \<^verbatim>\<open>None.strip()\<close> raises \<^verbatim>\<open>AttributeError\<close>.
\<close>

definition text_strip_if_present :: "node option \<Rightarrow> error + string" where
  "text_strip_if_present x =
     (case x of
        None \<Rightarrow> Inr []
      | Some n \<Rightarrow> (case etext n of None \<Rightarrow> Inl AttributeError | Some t \<Rightarrow> Inr (strip t)))"

definition create_event_entity_mapping_key :: "node \<Rightarrow> error + key" where
  "create_event_entity_mapping_key elem =
     (let sourcename = find_attribute elem ''sourcename'';
          destinationname = find_attribute elem ''destinationname'';
          mappingtypename = find_attribute elem ''mappingtypename''
      in case text_strip_if_present sourcename of Inl e \<Rightarrow> Inl e | Inr s \<Rightarrow>
         (case text_strip_if_present destinationname of Inl e \<Rightarrow> Inl e | Inr d \<Rightarrow>
         (case text_strip_if_present mappingtypename of Inl e \<Rightarrow> Inl e | Inr m \<Rightarrow>
            Inr [PyStr ''XDDEVENTITYMAPPING'', PyStr s, PyStr d, PyStr m])))"

definition create_attribute_or_relationship_mapping_key :: "node \<Rightarrow> error + key" where
  "create_attribute_or_relationship_mapping_key elem =
     (let name_elem = find_attribute elem ''name''
      in case text_strip_if_present name_elem of Inl e \<Rightarrow> Inl e | Inr name_val \<Rightarrow>
           Inr [py_of (get elem ''type''), PyStr name_val])"

definition create_mapping_model_key :: "node \<Rightarrow> error + key" where
  "create_mapping_model_key elem =
     (let sourcemodelpath = find_attribute elem ''sourcemodelpath''
      in case text_strip_if_present sourcemodelpath of Inl e \<Rightarrow> Inl e | Inr path_val \<Rightarrow>
           Inr [PyStr ''XDDEVMAPPINGMODEL'', PyStr path_val])"

definition get_object_key :: "node \<Rightarrow> error + key" where
  "get_object_key elem =
     (let typ = get elem ''type''
      in if typ = Some ''XDDEVENTITYMAPPING'' then create_event_entity_mapping_key elem
         else if typ = Some ''XDDEVATTRIBUTEMAPPING'' \<or> typ = Some ''XDDEVRELATIONSHIPMAPPING''
         then create_attribute_or_relationship_mapping_key elem
         else if typ = Some ''XDDEVMAPPINGMODEL'' then create_mapping_model_key elem
         else Inr [PyStr (tag elem)])"

subsection \<open>Formatting\<close>

text \<open>\<^verbatim>\<open>t[i]\<close> on a tuple: \<^verbatim>\<open>IndexError\<close> out of range.\<close>

definition py_nth :: "'a list \<Rightarrow> nat \<Rightarrow> error + 'a" where
  "py_nth xs i = (if i < length xs then Inr (xs ! i) else Inl IndexError)"

definition hex_digit :: "nat \<Rightarrow> char" where
  "hex_digit d = ''0123456789abcdef'' ! d"

definition printable :: "char \<Rightarrow> bool" where
  "printable c =
     (let n = (of_char c :: nat) in (32 \<le> n \<and> n < 127) \<or> (161 \<le> n \<and> n \<noteq> 173))"

text \<open>One character of \<^verbatim>\<open>repr(s)\<close>, where \<open>q\<close> is the quote that encloses the string.\<close>

definition repr_char :: "char \<Rightarrow> char \<Rightarrow> string" where
  "repr_char q c =
     (if c = CHR 0x5C then [CHR 0x5C, CHR 0x5C]
      else if c = q then [CHR 0x5C, q]
      else if c = CHR 0x09 then [CHR 0x5C, CHR ''t'']
      else if c = CHR 0x0A then [CHR 0x5C, CHR ''n'']
      else if c = CHR 0x0D then [CHR 0x5C, CHR ''r'']
      else if printable c then [c]
      else [CHR 0x5C, CHR ''x'', hex_digit (of_char c div 16), hex_digit (of_char c mod 16)])"

text \<open>\<^verbatim>\<open>repr(v)\<close>: a string is quoted with \<^verbatim>\<open>'\<close>, or with \<^verbatim>\<open>"\<close> when it contains
  \<^verbatim>\<open>'\<close> and no \<^verbatim>\<open>"\<close>.\<close>

fun py_repr :: "pyval \<Rightarrow> string" where
  "py_repr PyNone = ''None''"
| "py_repr (PyStr s) =
     (let q = (if CHR 0x27 \<in> set s \<and> CHR 0x22 \<notin> set s then CHR 0x22 else CHR 0x27)
      in [q] @ concat (map (repr_char q) s) @ [q])"

fun join_comma :: "string list \<Rightarrow> string" where
  "join_comma [] = []"
| "join_comma [x] = x"
| "join_comma (x # y # ys) = x @ '', '' @ join_comma (y # ys)"

text \<open>\<^verbatim>\<open>str(key)\<close> of a tuple.\<close>

definition str_tuple :: "key \<Rightarrow> string" where
  "str_tuple k =
     (if length k = 1 then ''('' @ py_repr (k ! 0) @ '',)''
      else ''('' @ join_comma (map py_repr k) @ '')'')"

definition format_object_key :: "key \<Rightarrow> error + string" where
  "format_object_key k =
     (case py_nth k 0 of Inl e \<Rightarrow> Inl e | Inr k0 \<Rightarrow>
        if k0 = PyStr ''XDDEVENTITYMAPPING'' then
          (case py_nth k 2 of Inl e \<Rightarrow> Inl e | Inr k2 \<Rightarrow>
          (case py_nth k 3 of Inl e \<Rightarrow> Inl e | Inr k3 \<Rightarrow>
             Inr (''destination name: '' @ py_str k2 @ '', mappingTypename: '' @ py_str k3)))
        else if k0 = PyStr ''XDDEVATTRIBUTEMAPPING'' \<or> k0 = PyStr ''XDDEVRELATIONSHIPMAPPING'' then
          (case py_nth k 1 of Inl e \<Rightarrow> Inl e | Inr k1 \<Rightarrow> Inr (''name: '' @ py_str k1))
        else if k0 = PyStr ''XDDEVMAPPINGMODEL'' then
          (case py_nth k 1 of Inl e \<Rightarrow> Inl e | Inr k1 \<Rightarrow> Inr (''sourcemodelpath: '' @ py_str k1))
        else Inr (str_tuple k))"

definition format_event_entity_mapping :: "node \<Rightarrow> error + string" where
  "format_event_entity_mapping elem =
     (let dest = find_attribute elem ''destinationname'';
          mappingtypename = find_attribute elem ''mappingtypename''
      in case text_strip_if_present dest of Inl e \<Rightarrow> Inl e | Inr dest_val \<Rightarrow>
         (case text_strip_if_present mappingtypename of Inl e \<Rightarrow> Inl e
          | Inr mappingtypename_val \<Rightarrow>
              Inr (''{ destination name: '' @ dest_val @ '', mappingTypename: ''
                   @ mappingtypename_val @ '' }'')))"

definition format_element :: "node \<Rightarrow> error + string" where
  "format_element elem =
     (if tag elem = ''object'' then
        (let typ = get elem ''type''
         in if typ = Some ''XDDEVENTITYMAPPING'' then format_event_entity_mapping elem
            else (case get_object_key elem of Inl e \<Rightarrow> Inl e | Inr k \<Rightarrow>
                 (case format_object_key k of Inl e \<Rightarrow> Inl e
                  | Inr s \<Rightarrow> Inr (''['' @ s @ '']''))))
      else
        (let text = strip (text_or_empty elem)
         in Inr (if text \<noteq> [] then tag elem @ '': '' @ [CHR 0x27] @ text @ [CHR 0x27]
                 else tag elem)))"

definition get_element_value :: "node \<Rightarrow> string" where
  "get_element_value elem =
     (if length (children elem) = 0 then strip (text_or_empty elem) else [])"

subsection \<open>Comparing one pair of nodes\<close>

text \<open>The result is the pair \<^verbatim>\<open>(diffs, both_present)\<close> of the source.\<close>

fun check_missing_nodes ::
  "node option \<Rightarrow> node option \<Rightarrow> string \<Rightarrow> error + (diff list \<times> bool)" where
  "check_missing_nodes None None path = Inr ([], False)"
| "check_missing_nodes None (Some new_elem) path =
     (case format_element new_elem of Inl e \<Rightarrow> Inl e
      | Inr formatted_elem \<Rightarrow>
          (let val = get_element_value new_elem;
               diff_info = (info CATEGORY_EXTRA path)\<lparr>d_new := Some (PyStr formatted_elem)\<rparr>;
               diff_info = (if val \<noteq> [] then diff_info\<lparr>d_value := Some val\<rparr> else diff_info)
           in Inr ([(TYPE_EXTRA, diff_info)], False)))"
| "check_missing_nodes (Some old_elem) None path =
     (case format_element old_elem of Inl e \<Rightarrow> Inl e
      | Inr formatted_elem \<Rightarrow>
          (let val = get_element_value old_elem;
               diff_info = (info CATEGORY_MISSING path)\<lparr>d_old := Some (PyStr formatted_elem)\<rparr>;
               diff_info = (if val \<noteq> [] then diff_info\<lparr>d_value := Some val\<rparr> else diff_info)
           in Inr ([(TYPE_MISSING, diff_info)], False)))"
| "check_missing_nodes (Some old_elem) (Some new_elem) path = Inr ([], True)"

definition compare_tags :: "node \<Rightarrow> node \<Rightarrow> string \<Rightarrow> diff list" where
  "compare_tags old_elem new_elem path =
     (if tag old_elem \<noteq> tag new_elem then
        [(TYPE_MISMATCH,
          (info CATEGORY_MISMATCH (path @ '' tag''))
            \<lparr>d_old := Some (PyStr (tag old_elem)), d_new := Some (PyStr (tag new_elem)),
             d_type := Some ''tag''\<rparr>)]
      else [])"

definition compare_text :: "node \<Rightarrow> node \<Rightarrow> string \<Rightarrow> diff list" where
  "compare_text old_elem new_elem path =
     (if tag old_elem = ''attribute'' \<and> get old_elem ''name'' = Some ''mappingnumber'' then []
      else
        (let text_old = strip (text_or_empty old_elem);
             text_new = strip (text_or_empty new_elem)
         in if text_old \<noteq> text_new then
              [(TYPE_MISMATCH,
                (info CATEGORY_MISMATCH (path @ '' text''))
                  \<lparr>d_old := Some (PyStr text_old), d_new := Some (PyStr text_new),
                   d_type := Some ''text''\<rparr>)]
            else []))"

definition compare_attributes :: "node \<Rightarrow> node \<Rightarrow> string \<Rightarrow> diff list" where
  "compare_attributes old_elem new_elem path =
     (let all_attrs = set_union (map fst (attrib old_elem)) (map fst (attrib new_elem))
      in concat (map (\<lambda>attr.
           let val_old = get old_elem attr; val_new = get new_elem attr
           in if val_old \<noteq> val_new then
                [(TYPE_MISMATCH,
                  (info CATEGORY_MISMATCH (path @ '' attribute '' @ [CHR 0x27] @ attr @ [CHR 0x27]))
                    \<lparr>d_old := Some (py_of val_old), d_new := Some (py_of val_new),
                     d_type := Some ''attribute''\<rparr>)]
              else [])
           (filter (\<lambda>x. x \<notin> IGNORED_ATTRIBUTES) all_attrs)))"

subsection \<open>The set-of-strings strategy\<close>

text \<open>\<^verbatim>\<open>[(child.text or "").strip() for child in xs]\<close>\<close>

definition key_texts :: "node list \<Rightarrow> string list" where
  "key_texts xs = map (\<lambda>child. strip (text_or_empty child)) xs"

definition handle_plist_keys ::
  "node list \<Rightarrow> node list \<Rightarrow> string \<Rightarrow> string \<Rightarrow> error + diff list" where
  "handle_plist_keys old_list new_list path tg =
     (let old_keys = key_texts old_list;
          new_keys = key_texts new_list
      in if set old_keys = set new_keys then Inr []
         else
           (let missing = filter (\<lambda>k. k \<notin> set new_keys) old_keys;
                extra = filter (\<lambda>k. k \<notin> set old_keys) new_keys
            in if length missing = 1 \<and> length extra = 1 then
                 (case list_index old_keys (missing ! 0) of Inl e \<Rightarrow> Inl e
                  | Inr index \<Rightarrow>
                      (let subpath = path @ ''.'' @ tg @ ''['' @ str_nat index @ '']''
                       in Inr [(TYPE_MISMATCH,
                                (info CATEGORY_MISMATCH (subpath @ '' text''))
                                  \<lparr>d_old := Some (PyStr (missing ! 0)),
                                   d_new := Some (PyStr (extra ! 0)),
                                   d_type := Some ''text''\<rparr>)]))
               else
                 (case extend_each (\<lambda>k.
                          case list_index old_keys k of Inl e \<Rightarrow> Inl e
                          | Inr index \<Rightarrow>
                              (let subpath = path @ ''.'' @ tg @ ''['' @ str_nat index @ '']''
                               in Inr [(TYPE_MISSING,
                                        (info CATEGORY_MISSING (subpath @ '' text''))
                                          \<lparr>d_old := Some (PyStr k), d_value := Some k\<rparr>)]))
                        missing of
                    Inl e \<Rightarrow> Inl e
                  | Inr missing_diffs \<Rightarrow>
                      (case extend_each (\<lambda>k.
                               case list_index new_keys k of Inl e \<Rightarrow> Inl e
                               | Inr index \<Rightarrow>
                                   (let subpath = path @ ''.'' @ tg @ ''['' @ str_nat index @ '']''
                                    in Inr [(TYPE_EXTRA,
                                             (info CATEGORY_EXTRA (subpath @ '' text''))
                                               \<lparr>d_new := Some (PyStr k), d_value := Some k\<rparr>)]))
                             extra of
                         Inl e \<Rightarrow> Inl e
                       | Inr extra_diffs \<Rightarrow> Inr (missing_diffs @ extra_diffs)))))"

subsection \<open>Filtering and grouping children\<close>

definition filter_children :: "node list \<Rightarrow> node list" where
  "filter_children cs =
     (let ignored_names = {''sourcemodeldata'', ''destinationmodeldata'', ''mappingnumber''}
      in filter (\<lambda>child. \<not> (tag child = ''attribute'' \<and>
                   (case get child ''name'' of None \<Rightarrow> False | Some n \<Rightarrow> n \<in> ignored_names)))
           cs)"

text \<open>\<^verbatim>\<open>d.get(k, [])\<close>\<close>

definition get_or_empty :: "('k \<times> 'v list) list \<Rightarrow> 'k \<Rightarrow> 'v list" where
  "get_or_empty d k = (case map_of d k of None \<Rightarrow> [] | Some l \<Rightarrow> l)"

text \<open>The loop of \<^verbatim>\<open>group_by_tag\<close>: \<^verbatim>\<open>groups.setdefault(element.tag, []).append(element)\<close>.\<close>

fun group_loop :: "(string \<times> node list) list \<Rightarrow> node list \<Rightarrow> (string \<times> node list) list" where
  "group_loop groups [] = groups"
| "group_loop groups (element # elements) =
     group_loop (AList.update (tag element) (get_or_empty groups (tag element) @ [element]) groups)
       elements"

definition group_by_tag :: "node list \<Rightarrow> (string \<times> node list) list" where
  "group_by_tag elements = group_loop [] elements"

text \<open>The dictionary comprehension \<^verbatim>\<open>{get_object_key(child): child for child in xs}\<close>,
  started from the dictionary \<open>d\<close>: a later child replaces an earlier one with the same key.\<close>

fun object_dict_loop :: "(key \<times> node) list \<Rightarrow> node list \<Rightarrow> error + (key \<times> node) list" where
  "object_dict_loop d [] = Inr d"
| "object_dict_loop d (child # xs) =
     (case get_object_key child of Inl e \<Rightarrow> Inl e
      | Inr k \<Rightarrow> object_dict_loop (AList.update k child d) xs)"

definition object_dict :: "node list \<Rightarrow> error + (key \<times> node) list" where
  "object_dict xs = object_dict_loop [] xs"

subsection \<open>The recursive comparator and its dispatcher\<close>

text \<open>Facts about grouping and the object dictionary that the termination proof needs.\<close>

lemma get_or_empty_update:
  "get_or_empty (AList.update k v d) k' = (if k' = k then v else get_or_empty d k')"
  by (simp add: get_or_empty_def update_conv')

lemma group_loop_lookup:
  "get_or_empty (group_loop g xs) t = get_or_empty g t @ filter (\<lambda>e. tag e = t) xs"
  by (induction xs arbitrary: g) (auto simp: get_or_empty_update)

lemma get_or_empty_Nil: "get_or_empty [] t = []"
  by (simp add: get_or_empty_def)

lemma group_by_tag_lookup:
  "get_or_empty (group_by_tag xs) t = filter (\<lambda>e. tag e = t) xs"
  by (simp add: group_by_tag_def group_loop_lookup get_or_empty_Nil)

lemma size_list_filter_le: "size_list f (filter P xs) \<le> size_list f xs"
  by (induction xs) auto

lemma filter_children_subset: "size_list f (filter_children xs) \<le> size_list f xs"
  by (simp add: filter_children_def size_list_filter_le)

lemma object_dict_loop_mem:
  "object_dict_loop d xs = Inr d' \<Longrightarrow> map_of d' k = Some c \<Longrightarrow> c \<in> set xs \<or> map_of d k = Some c"
proof (induction xs arbitrary: d)
  case Nil
  then show ?case by simp
next
  case (Cons a xs)
  from Cons.prems(1) obtain ka where ka: "get_object_key a = Inr ka"
    and loop: "object_dict_loop (AList.update ka a d) xs = Inr d'"
    by (auto split: sum.splits)
  from Cons.IH [OF loop Cons.prems(2)]
  show ?case by (auto simp: update_conv' split: if_splits)
qed

lemma object_dict_mem:
  "object_dict xs = Inr d \<Longrightarrow> map_of d k = Some c \<Longrightarrow> c \<in> set xs"
  using object_dict_loop_mem [of "[]" xs d k c] by (simp add: object_dict_def)

lemma group_size_le:
  "size_list size (get_or_empty (group_by_tag (filter_children xs)) t) \<le> size_list size xs"
proof -
  have "size_list size (get_or_empty (group_by_tag (filter_children xs)) t)
          \<le> size_list size (filter_children xs)"
    by (simp add: group_by_tag_lookup size_list_filter_le)
  also have "\<dots> \<le> size_list size xs"
    by (rule filter_children_subset)
  finally show ?thesis .
qed

lemma mem_size_le: "x \<in> set xs \<Longrightarrow> size (x::node) \<le> size_list size xs"
  using size_list_estimation' [of x xs "size x" size] by simp

lemma nth_size_le: "i < length xs \<Longrightarrow> size (xs ! i :: node) \<le> size_list size xs"
  by (simp add: mem_size_le)

lemma children_size_less: "size_list size (children x) < size x"
  by (cases x) simp

definition osize :: "node option \<Rightarrow> nat" where
  "osize x = (case x of None \<Rightarrow> 0 | Some n \<Rightarrow> size n)"

text \<open>The measure of the recursion: the sizes of the two arguments, and the level of the
  function among the four.\<close>

definition rank ::
  "((node option \<times> node option \<times> string) + (node list \<times> node list \<times> string))
   + ((node list \<times> node list \<times> string) + (node list \<times> node list \<times> string \<times> string)) \<Rightarrow> nat" where
  "rank x =
     (case x of
        Inl (Inl (a, b, p)) \<Rightarrow> 4 * (osize a + osize b)
      | Inl (Inr (a, b, p)) \<Rightarrow> 4 * (size_list size a + size_list size b) + 3
      | Inr (Inl (a, b, p)) \<Rightarrow> 4 * (size_list size a + size_list size b) + 2
      | Inr (Inr (a, b, p, t)) \<Rightarrow> 4 * (size_list size a + size_list size b) + 2)"

function diff_elements :: "node option \<Rightarrow> node option \<Rightarrow> string \<Rightarrow> error + diff list"
  and diff_children :: "node list \<Rightarrow> node list \<Rightarrow> string \<Rightarrow> error + diff list"
  and handle_object_nodes :: "node list \<Rightarrow> node list \<Rightarrow> string \<Rightarrow> error + diff list"
  and handle_default_children ::
    "node list \<Rightarrow> node list \<Rightarrow> string \<Rightarrow> string \<Rightarrow> error + diff list"
where
  "diff_elements old_elem new_elem path =
     (case check_missing_nodes old_elem new_elem path of Inl e \<Rightarrow> Inl e
      | Inr (missing_diffs, both_present) \<Rightarrow>
          if \<not> both_present then Inr missing_diffs
          else
            (case old_elem of None \<Rightarrow> Inl AttributeError | Some old \<Rightarrow>
            (case new_elem of None \<Rightarrow> Inl AttributeError | Some new \<Rightarrow>
               (let tag_diffs = compare_tags old new path
                in if tag_diffs \<noteq> [] then Inr (missing_diffs @ tag_diffs)
                   else
                     (case diff_children (children old) (children new) path of
                        Inl e \<Rightarrow> Inl e
                      | Inr child_diffs \<Rightarrow>
                          Inr (missing_diffs @ compare_text old new path
                               @ compare_attributes old new path @ child_diffs))))))"
| "diff_children old_children new_children path =
     (let old_children = filter_children old_children;
          new_children = filter_children new_children;
          groups_old = group_by_tag old_children;
          groups_new = group_by_tag new_children
      in extend_each (\<lambda>tg.
           let old_list = get_or_empty groups_old tg;
               new_list = get_or_empty groups_new tg
           in if tg = ''key'' \<and> str_contains ''.plist.dict'' path
              then handle_plist_keys old_list new_list path tg
              else if tg = ''object'' then handle_object_nodes old_list new_list path
              else handle_default_children old_list new_list path tg)
         (set_union (map fst groups_old) (map fst groups_new)))"
| "handle_object_nodes old_list new_list path =
     (case object_dict old_list of Inl e \<Rightarrow> Inl e | Inr dict_old \<Rightarrow>
     (case object_dict new_list of Inl e \<Rightarrow> Inl e | Inr dict_new \<Rightarrow>
        extend_each (\<lambda>k.
          case format_object_key k of Inl e \<Rightarrow> Inl e | Inr desc \<Rightarrow>
            (let subpath = path @ ''.object['' @ desc @ '']''
             in case map_of dict_old k of
                  None \<Rightarrow>
                    (case map_of dict_new k of None \<Rightarrow> Inl AttributeError
                     | Some child_new \<Rightarrow>
                         (case format_element child_new of Inl e \<Rightarrow> Inl e
                          | Inr s \<Rightarrow>
                              Inr [(TYPE_EXTRA,
                                    (info CATEGORY_EXTRA subpath)\<lparr>d_new := Some (PyStr s)\<rparr>)]))
                | Some child_old \<Rightarrow>
                    (case map_of dict_new k of
                       None \<Rightarrow>
                         (case format_element child_old of Inl e \<Rightarrow> Inl e
                          | Inr s \<Rightarrow>
                              Inr [(TYPE_MISSING,
                                    (info CATEGORY_MISSING subpath)\<lparr>d_old := Some (PyStr s)\<rparr>)])
                     | Some child_new \<Rightarrow>
                         diff_elements (Some child_old) (Some child_new) subpath)))
          (set_union (map fst dict_old) (map fst dict_new))))"
| "handle_default_children old_list new_list path tg =
     (let max_len = max (length old_list) (length new_list)
      in extend_each (\<lambda>i.
           let subpath = (if max_len = 1 then path @ ''.'' @ tg
                          else path @ ''.'' @ tg @ ''['' @ str_nat i @ '']'');
               child_old = (if i < length old_list then Some (old_list ! i) else None);
               child_new = (if i < length new_list then Some (new_list ! i) else None)
           in diff_elements child_old child_new subpath)
         [0..<max_len])"
  by pat_completeness auto
termination
proof (relation "measure rank")
  show "wf (measure rank)"
    by simp
next
  fix old_elem new_elem :: "node option" and path :: string and old new :: node
  assume "old_elem = Some old" "new_elem = Some new"
  then show "(Inl (Inr (children old, children new, path)),
              Inl (Inl (old_elem, new_elem, path))) \<in> measure rank"
    using children_size_less [of old] children_size_less [of new]
    by (simp add: rank_def osize_def)
next
  fix old_children new_children x xa old_list new_list :: "node list" and path tg :: string
    and groups_old groups_new :: "(string \<times> node list) list"
  assume "x = filter_children old_children" "xa = filter_children new_children"
    "groups_old = group_by_tag x" "groups_new = group_by_tag xa"
    "old_list = get_or_empty groups_old tg" "new_list = get_or_empty groups_new tg"
  then show "(Inr (Inl (old_list, new_list, path)),
              Inl (Inr (old_children, new_children, path))) \<in> measure rank"
    using group_size_le [of old_children tg] group_size_le [of new_children tg]
    by (simp add: rank_def)
next
  fix old_children new_children x xa old_list new_list :: "node list" and path tg :: string
    and groups_old groups_new :: "(string \<times> node list) list"
  assume "x = filter_children old_children" "xa = filter_children new_children"
    "groups_old = group_by_tag x" "groups_new = group_by_tag xa"
    "old_list = get_or_empty groups_old tg" "new_list = get_or_empty groups_new tg"
  then show "(Inr (Inr (old_list, new_list, path, tg)),
              Inl (Inr (old_children, new_children, path))) \<in> measure rank"
    using group_size_le [of old_children tg] group_size_le [of new_children tg]
    by (simp add: rank_def)
next
  fix old_list new_list :: "node list" and path subpath :: string
    and dict_old dict_new :: "(key \<times> node) list" and k :: key and child_old child_new :: node
  assume "object_dict old_list = Inr dict_old" "object_dict new_list = Inr dict_new"
    "map_of dict_old k = Some child_old" "map_of dict_new k = Some child_new"
  then have "child_old \<in> set old_list" "child_new \<in> set new_list"
    by (auto dest: object_dict_mem)
  then show "(Inl (Inl (Some child_old, Some child_new, subpath)),
              Inr (Inl (old_list, new_list, path))) \<in> measure rank"
    using mem_size_le [of child_old old_list] mem_size_le [of child_new new_list]
    by (simp add: rank_def osize_def)
next
  fix old_list new_list :: "node list" and path tg subpath :: string and i :: nat
    and child_old child_new :: "node option"
  assume "child_old = (if i < length old_list then Some (old_list ! i) else None)"
    "child_new = (if i < length new_list then Some (new_list ! i) else None)"
  then show "(Inl (Inl (child_old, child_new, subpath)),
              Inr (Inr (old_list, new_list, path, tg))) \<in> measure rank"
    using nth_size_le [of i old_list] nth_size_le [of i new_list]
    by (auto simp: rank_def osize_def)
qed

declare diff_elements.simps [simp del] diff_children.simps [simp del]
  handle_object_nodes.simps [simp del] handle_default_children.simps [simp del]

subsection \<open>Path normalization\<close>

definition normalize_path :: "string \<Rightarrow> string" where
  "normalize_path path =
     (if str_contains ''object['' path then
        (let path = str_replace ''object['' ''object.{'' path
         in if ends_with '']'' path then butlast path @ ''}'' else path)
      else path)"

section \<open>Notions used in the statements\<close>

text \<open>The key of a node on which derivation succeeds.\<close>

definition the_key :: "node \<Rightarrow> key" where
  "the_key c = (case get_object_key c of Inl e \<Rightarrow> [] | Inr k \<Rightarrow> k)"

text \<open>
  Key derivation succeeds on every \<^verbatim>\<open>object\<close> node below the root (\<open>keys_ok\<close>), and on the
  \<^verbatim>\<open>object\<close> nodes of a list of siblings and below them (\<open>children_ok\<close>).
\<close>

fun keys_ok :: "node \<Rightarrow> bool" where
  "keys_ok (Node t a x cs) =
     (\<forall>c \<in> set cs. (tag c = ''object'' \<longrightarrow> \<not> isl (get_object_key c)) \<and> keys_ok c)"

definition children_ok :: "node list \<Rightarrow> bool" where
  "children_ok cs = (\<forall>c \<in> set cs. (tag c = ''object'' \<longrightarrow> \<not> isl (get_object_key c)) \<and> keys_ok c)"

text \<open>A comparison is quiet when it returns no record; it may raise only if \<open>ok\<close> fails.\<close>

definition quiet :: "error + diff list \<Rightarrow> bool \<Rightarrow> bool" where
  "quiet r ok = (r = Inr [] \<or> (isl r \<and> \<not> ok))"

text \<open>The outcome of a comparison up to the order of its records: the set of records, or
  \<open>None\<close> when the comparison raises.\<close>

definition diff_set :: "error + diff list \<Rightarrow> diff set option" where
  "diff_set r = (case r of Inl e \<Rightarrow> None | Inr ds \<Rightarrow> Some (set ds))"

text \<open>The last sibling of a list that has the key \<open>k\<close>.\<close>

definition last_with_key :: "node list \<Rightarrow> key \<Rightarrow> node option" where
  "last_with_key xs k = find (\<lambda>c. the_key c = k) (rev xs)"

text \<open>The body of the loop of \<^verbatim>\<open>handle_object_nodes\<close> for the key \<open>k\<close>, given the two
  children that the dictionaries hold for it.\<close>

definition object_pair :: "string \<Rightarrow> key \<Rightarrow> node option \<Rightarrow> node option \<Rightarrow> error + diff list" where
  "object_pair path k co cn =
     (case format_object_key k of Inl e \<Rightarrow> Inl e | Inr desc \<Rightarrow>
        (let subpath = path @ ''.object['' @ desc @ '']''
         in case co of
              None \<Rightarrow>
                (case cn of None \<Rightarrow> Inl AttributeError
                 | Some child_new \<Rightarrow>
                     (case format_element child_new of Inl e \<Rightarrow> Inl e
                      | Inr s \<Rightarrow>
                          Inr [(TYPE_EXTRA,
                                (info CATEGORY_EXTRA subpath)\<lparr>d_new := Some (PyStr s)\<rparr>)]))
            | Some child_old \<Rightarrow>
                (case cn of
                   None \<Rightarrow>
                     (case format_element child_old of Inl e \<Rightarrow> Inl e
                      | Inr s \<Rightarrow>
                          Inr [(TYPE_MISSING,
                                (info CATEGORY_MISSING subpath)\<lparr>d_old := Some (PyStr s)\<rparr>)])
                 | Some child_new \<Rightarrow>
                     diff_elements (Some child_old) (Some child_new) subpath)))"

text \<open>Siblings that derive the same key are equal.\<close>

definition distinct_keys :: "node list \<Rightarrow> bool" where
  "distinct_keys xs =
     (\<forall>a\<in>set xs. \<forall>b\<in>set xs.
        \<not> isl (get_object_key a) \<and> get_object_key a = get_object_key b \<longrightarrow> a = b)"

text \<open>The tree without its ignored attributes.\<close>

fun erase_ignored :: "node \<Rightarrow> node" where
  "erase_ignored (Node t a x cs) =
     Node t (filter (\<lambda>kv. fst kv \<notin> IGNORED_ATTRIBUTES) a) x (map erase_ignored cs)"

text \<open>\<open>differs_in_attr a T T'\<close>: the tree \<open>T'\<close> is \<open>T\<close> with another value for the attribute \<open>a\<close>
  of one node.\<close>

inductive differs_in_attr :: "string \<Rightarrow> node \<Rightarrow> node \<Rightarrow> bool" for a :: string where
  here: "differs_in_attr a (Node t (as1 @ (a, v) # as2) x cs) (Node t (as1 @ (a, v') # as2) x cs)"
| below: "differs_in_attr a c c' \<Longrightarrow>
          differs_in_attr a (Node t as x (cs1 @ c # cs2)) (Node t as x (cs1 @ c' # cs2))"

text \<open>A record seen from the other direction: MissingNode and ExtraNode exchanged, the old
  and the new value exchanged, path, subtype and inline value kept.\<close>

definition swap_diff :: "diff \<Rightarrow> diff" where
  "swap_diff d =
     (case d of (ty, i) \<Rightarrow>
        ((if ty = TYPE_MISSING then TYPE_EXTRA
          else if ty = TYPE_EXTRA then TYPE_MISSING else ty),
         i\<lparr>d_category :=
              (if d_category i = CATEGORY_MISSING then CATEGORY_EXTRA
               else if d_category i = CATEGORY_EXTRA then CATEGORY_MISSING
               else d_category i),
           d_old := d_new i, d_new := d_old i\<rparr>))"

text \<open>An outcome with every record swapped.\<close>

definition swapped :: "diff set option \<Rightarrow> diff set option" where
  "swapped r = map_option (\<lambda>s. swap_diff ` s) r"

text \<open>The nodes whose text \<^verbatim>\<open>compare_text\<close> skips when they stand on the old side.\<close>

definition is_mappingnumber :: "node \<Rightarrow> bool" where
  "is_mappingnumber n = (tag n = ''attribute'' \<and> get n ''name'' = Some ''mappingnumber'')"

text \<open>The \<^verbatim>\<open>key\<close> children of a node; a rename of the set-of-strings strategy between two
  lists of keys is aligned when the removed and the added text have the same index.\<close>

definition key_children :: "node \<Rightarrow> node list" where
  "key_children n = filter (\<lambda>c. tag c = ''key'') (children n)"

definition renames_aligned :: "node list \<Rightarrow> node list \<Rightarrow> bool" where
  "renames_aligned ol nl =
     (let old_keys = key_texts ol; new_keys = key_texts nl;
          missing = filter (\<lambda>k. k \<notin> set new_keys) old_keys;
          extra = filter (\<lambda>k. k \<notin> set old_keys) new_keys
      in length missing = 1 \<and> length extra = 1 \<longrightarrow>
           list_index old_keys (missing ! 0) = list_index new_keys (extra ! 0))"

text \<open>All nodes of a tree.\<close>

fun nodes :: "node \<Rightarrow> node list" where
  "nodes (Node t a x cs) = Node t a x cs # concat (map nodes cs)"

text \<open>No node of \<open>a\<close> and node of \<open>b\<close> have \<^verbatim>\<open>key\<close> children with a rename that is not aligned.\<close>

definition all_renames_aligned :: "node \<Rightarrow> node \<Rightarrow> bool" where
  "all_renames_aligned a b =
     (\<forall>a'\<in>set (nodes a). \<forall>b'\<in>set (nodes b). renames_aligned (key_children a') (key_children b'))"

text \<open>The bodies of the loops of \<^verbatim>\<open>compare_attributes\<close> and \<^verbatim>\<open>handle_plist_keys\<close>, by name.\<close>

definition attribute_diff :: "node \<Rightarrow> node \<Rightarrow> string \<Rightarrow> string \<Rightarrow> diff list" where
  "attribute_diff old_elem new_elem path attr =
     (let val_old = get old_elem attr; val_new = get new_elem attr
      in if val_old \<noteq> val_new then
           [(TYPE_MISMATCH,
             (info CATEGORY_MISMATCH (path @ '' attribute '' @ [CHR 0x27] @ attr @ [CHR 0x27]))
               \<lparr>d_old := Some (py_of val_old), d_new := Some (py_of val_new),
                d_type := Some ''attribute''\<rparr>)]
         else [])"

definition missing_key_diff :: "string list \<Rightarrow> string \<Rightarrow> string \<Rightarrow> string \<Rightarrow> error + diff list" where
  "missing_key_diff keys path tg k =
     (case list_index keys k of Inl e \<Rightarrow> Inl e
      | Inr index \<Rightarrow>
          (let subpath = path @ ''.'' @ tg @ ''['' @ str_nat index @ '']''
           in Inr [(TYPE_MISSING,
                    (info CATEGORY_MISSING (subpath @ '' text''))
                      \<lparr>d_old := Some (PyStr k), d_value := Some k\<rparr>)]))"

definition extra_key_diff :: "string list \<Rightarrow> string \<Rightarrow> string \<Rightarrow> string \<Rightarrow> error + diff list" where
  "extra_key_diff keys path tg k =
     (case list_index keys k of Inl e \<Rightarrow> Inl e
      | Inr index \<Rightarrow>
          (let subpath = path @ ''.'' @ tg @ ''['' @ str_nat index @ '']''
           in Inr [(TYPE_EXTRA,
                    (info CATEGORY_EXTRA (subpath @ '' text''))
                      \<lparr>d_new := Some (PyStr k), d_value := Some k\<rparr>)]))"

text \<open>A function applied to every record of a result.\<close>

definition map_diffs :: "(diff \<Rightarrow> diff) \<Rightarrow> error + diff list \<Rightarrow> error + diff list" where
  "map_diffs h r = (case r of Inl e \<Rightarrow> Inl e | Inr ds \<Rightarrow> Inr (map h ds))"

text \<open>
  Rearranging the \<^verbatim>\<open>object\<close> children of a tree (claim C3). \<open>objects_permuted ds cs'\<close>: the
  child list \<open>cs'\<close> has the children of \<open>ds\<close> that are not objects in the same places
  relative to each other, and the objects of \<open>ds\<close> in any order. \<open>perm_objects n n'\<close>: the tree
  \<open>n'\<close> is \<open>n\<close> with the object children rearranged in this way at every node, at any depth.
  \<open>keys_distinct n\<close>: at every node of \<open>n\<close>, object children that derive the same key are equal.
  \<open>kept_child\<close> is the test of \<open>filter_children\<close>.
\<close>

definition objects_permuted :: "node list \<Rightarrow> node list \<Rightarrow> bool" where
  "objects_permuted ds cs' =
     (filter (\<lambda>c. tag c \<noteq> ''object'') cs' = filter (\<lambda>c. tag c \<noteq> ''object'') ds
      \<and> mset (filter (\<lambda>c. tag c = ''object'') cs') = mset (filter (\<lambda>c. tag c = ''object'') ds))"

inductive perm_objects :: "node \<Rightarrow> node \<Rightarrow> bool" where
  rearrange: "list_all2 perm_objects cs ds \<Longrightarrow> objects_permuted ds cs' \<Longrightarrow>
              perm_objects (Node t a x cs) (Node t a x cs')"
monos list_all2_mono

fun keys_distinct :: "node \<Rightarrow> bool" where
  "keys_distinct (Node t a x cs) =
     (distinct_keys (filter (\<lambda>c. tag c = ''object'') cs) \<and> (\<forall>c\<in>set cs. keys_distinct c))"

definition kept_child :: "node \<Rightarrow> bool" where
  "kept_child child =
     (\<not> (tag child = ''attribute'' \<and>
         (case get child ''name'' of None \<Rightarrow> False
          | Some n \<Rightarrow> n \<in> {''sourcemodeldata'', ''destinationmodeldata'', ''mappingnumber''})))"

section \<open>Properties\<close>

subsection \<open>Unfolding the comparator on present nodes\<close>

lemma diff_elements_both:
  "diff_elements (Some old) (Some new) path =
     (if tag old \<noteq> tag new then Inr (compare_tags old new path)
      else (case diff_children (children old) (children new) path of
              Inl e \<Rightarrow> Inl e
            | Inr child_diffs \<Rightarrow>
                Inr (compare_text old new path @ compare_attributes old new path @ child_diffs)))"
  by (auto simp add: diff_elements.simps compare_tags_def split: sum.splits)

subsection \<open>Key derivation\<close>

text \<open>The only way key derivation fails: a sub-element \<^verbatim>\<open>attribute\<close> that is present and
  has no text.\<close>

lemma text_strip_if_present_error:
  "text_strip_if_present x = Inl e \<Longrightarrow> e = AttributeError \<and> (\<exists>n. x = Some n \<and> etext n = None)"
  by (auto simp: text_strip_if_present_def split: option.splits)

lemma find_attribute_Some:
  "find_attribute elem name = Some n \<Longrightarrow> n \<in> set (children elem) \<and> tag n = ''attribute''"
  by (auto simp: find_attribute_def find_Some_iff)

lemma get_object_key_error_cause:
  assumes "get_object_key elem = Inl e"
  shows "e = AttributeError \<and> (\<exists>c \<in> set (children elem). tag c = ''attribute'' \<and> etext c = None)"
  using assms
  by (auto simp: get_object_key_def create_event_entity_mapping_key_def
      create_attribute_or_relationship_mapping_key_def create_mapping_model_key_def Let_def
      split: if_splits sum.splits
      dest!: text_strip_if_present_error find_attribute_Some)

text \<open>
  Claim C2 (key derivation never raises). The code does not meet it: for an entity-mapping
  object whose \<^verbatim>\<open>sourcename\<close> sub-field is present and empty (ElementTree gives it the
  text \<^verbatim>\<open>None\<close>), \<^verbatim>\<open>sourcename.text.strip()\<close> raises \<^verbatim>\<open>AttributeError\<close>. The input is
  \<^verbatim>\<open><object type="XDDEVENTITYMAPPING"><attribute name="sourcename"/></object>\<close>.
\<close>

theorem get_object_key_raises:
  "get_object_key (Node ''object'' [(''type'', ''XDDEVENTITYMAPPING'')] None
      [Node ''attribute'' [(''name'', ''sourcename'')] None []]) = Inl AttributeError"
  by (simp add: get_object_key_def get_def create_event_entity_mapping_key_def
      find_attribute_def text_strip_if_present_def)

subsection \<open>The set-of-strings strategy\<close>

lemma handle_plist_keys_same:
  "set (key_texts old_list) = set (key_texts new_list) \<Longrightarrow>
   handle_plist_keys old_list new_list path tg = Inr []"
  by (simp add: handle_plist_keys_def)

lemma handle_plist_keys_one_changed:
  assumes "set (key_texts old_list) \<noteq> set (key_texts new_list)"
    and "filter (\<lambda>k. k \<notin> set (key_texts new_list)) (key_texts old_list) = [m]"
    and "filter (\<lambda>k. k \<notin> set (key_texts old_list)) (key_texts new_list) = [n]"
    and "list_index (key_texts old_list) m = Inr i"
  shows "handle_plist_keys old_list new_list path tg =
     Inr [(TYPE_MISMATCH,
           \<lparr>d_category = CATEGORY_MISMATCH,
            d_path = path @ ''.'' @ tg @ ''['' @ str_nat i @ '']'' @ '' text'',
            d_old = Some (PyStr m), d_new = Some (PyStr n),
            d_type = Some ''text'', d_value = None\<rparr>)]"
  unfolding handle_plist_keys_def Let_def using assms
  by (simp add: info_def)


lemma handle_plist_keys_else:
  assumes "set (key_texts old_list) \<noteq> set (key_texts new_list)"
    and "missing = filter (\<lambda>k. k \<notin> set (key_texts new_list)) (key_texts old_list)"
    and "extra = filter (\<lambda>k. k \<notin> set (key_texts old_list)) (key_texts new_list)"
    and "\<not> (length missing = 1 \<and> length extra = 1)"
    and "extend_each (\<lambda>k. case list_index (key_texts old_list) k of Inl e \<Rightarrow> Inl e
                | Inr index \<Rightarrow>
                    (let subpath = path @ ''.'' @ tg @ ''['' @ str_nat index @ '']''
                     in Inr [(TYPE_MISSING,
                              (info CATEGORY_MISSING (subpath @ '' text''))
                                \<lparr>d_old := Some (PyStr k), d_value := Some k\<rparr>)])) missing = Inr ms"
    and "extend_each (\<lambda>k. case list_index (key_texts new_list) k of Inl e \<Rightarrow> Inl e
                | Inr index \<Rightarrow>
                    (let subpath = path @ ''.'' @ tg @ ''['' @ str_nat index @ '']''
                     in Inr [(TYPE_EXTRA,
                              (info CATEGORY_EXTRA (subpath @ '' text''))
                                \<lparr>d_new := Some (PyStr k), d_value := Some k\<rparr>)])) extra = Inr es"
  shows "handle_plist_keys old_list new_list path tg = Inr (ms @ es)"
proof -
  note eqs = assms(2) [symmetric] assms(3) [symmetric]
  show ?thesis
    unfolding handle_plist_keys_def Let_def eqs
    using assms(1,4,5,6) unfolding Let_def by auto
qed


lemma list_index_mem:
  "x \<in> set xs \<Longrightarrow> \<exists>i. list_index xs x = Inr i \<and> i < length xs \<and> xs ! i = x"
  by (induction xs) auto

lemma extend_each_singletons:
  "(\<And>x. x \<in> set xs \<Longrightarrow> \<exists>d. f x = Inr [d]) \<Longrightarrow>
   \<exists>ds. extend_each f xs = Inr ds \<and> length ds = length xs"
proof (induction xs)
  case Nil
  then show ?case by simp
next
  case (Cons a xs)
  from Cons.prems obtain d where d: "f a = Inr [d]" by auto
  from Cons obtain ds where ds: "extend_each f xs = Inr ds" "length ds = length xs" by auto
  from d ds show ?case by simp
qed

text \<open>
  Claim C1, as amended. \<open>handle_plist_keys\<close> never raises, and it returns no record exactly
  when the two sides have the same set of trimmed key texts (the source compares
  \<^verbatim>\<open>set(old_keys) == set(new_keys)\<close>); whenever the sets differ it returns at least one
  record.
\<close>

theorem plist_keys_empty_iff_same_set:
  "\<exists>ds. handle_plist_keys old_list new_list path tg = Inr ds \<and>
        (ds = [] \<longleftrightarrow> set (key_texts old_list) = set (key_texts new_list))"
proof (cases "set (key_texts old_list) = set (key_texts new_list)")
  case True
  then show ?thesis by (simp add: handle_plist_keys_same)
next
  case False
  define missing where "missing = filter (\<lambda>k. k \<notin> set (key_texts new_list)) (key_texts old_list)"
  define extra where "extra = filter (\<lambda>k. k \<notin> set (key_texts old_list)) (key_texts new_list)"
  from False have nonempty: "missing \<noteq> [] \<or> extra \<noteq> []"
    by (auto simp: missing_def extra_def filter_empty_conv)
  show ?thesis
  proof (cases "length missing = 1 \<and> length extra = 1")
    case True
    then obtain m n where mn: "missing = [m]" "extra = [n]"
      by (auto simp: length_Suc_conv)
    have "set missing \<subseteq> set (key_texts old_list)"
      by (auto simp: missing_def)
    with mn have "m \<in> set (key_texts old_list)"
      by simp
    then obtain i where "list_index (key_texts old_list) m = Inr i"
      using list_index_mem [of m "key_texts old_list"] by auto
    with False mn show ?thesis
      using handle_plist_keys_one_changed [of old_list new_list m n i path tg]
      by (simp add: missing_def extra_def)
  next
    case other: False
    let ?fm = "\<lambda>k. case list_index (key_texts old_list) k of Inl e \<Rightarrow> Inl e
                | Inr index \<Rightarrow>
                    (let subpath = path @ ''.'' @ tg @ ''['' @ str_nat index @ '']''
                     in Inr [(TYPE_MISSING,
                              (info CATEGORY_MISSING (subpath @ '' text''))
                                \<lparr>d_old := Some (PyStr k), d_value := Some k\<rparr>)])"
    let ?fe = "\<lambda>k. case list_index (key_texts new_list) k of Inl e \<Rightarrow> Inl e
                | Inr index \<Rightarrow>
                    (let subpath = path @ ''.'' @ tg @ ''['' @ str_nat index @ '']''
                     in Inr [(TYPE_EXTRA,
                              (info CATEGORY_EXTRA (subpath @ '' text''))
                                \<lparr>d_new := Some (PyStr k), d_value := Some k\<rparr>)])"
    have fm_ok: "\<exists>d. ?fm k = Inr [d]" if "k \<in> set missing" for k
    proof -
      from that have "k \<in> set (key_texts old_list)" by (simp add: missing_def)
      then obtain i where "list_index (key_texts old_list) k = Inr i"
        using list_index_mem [of k "key_texts old_list"] by auto
      then show ?thesis by simp
    qed
    have "\<exists>ds. extend_each ?fm missing = Inr ds \<and> length ds = length missing"
      by (rule extend_each_singletons) (rule fm_ok)
    then obtain ms where ms: "extend_each ?fm missing = Inr ms" "length ms = length missing"
      by (elim exE conjE)
    have fe_ok: "\<exists>d. ?fe k = Inr [d]" if "k \<in> set extra" for k
    proof -
      from that have "k \<in> set (key_texts new_list)" by (simp add: extra_def)
      then obtain i where "list_index (key_texts new_list) k = Inr i"
        using list_index_mem [of k "key_texts new_list"] by auto
      then show ?thesis by simp
    qed
    have "\<exists>ds. extend_each ?fe extra = Inr ds \<and> length ds = length extra"
      by (rule extend_each_singletons) (rule fe_ok)
    then obtain es where es: "extend_each ?fe extra = Inr es" "length es = length extra"
      by (elim exE conjE)
    have "handle_plist_keys old_list new_list path tg = Inr (ms @ es)"
      by (rule handle_plist_keys_else [OF False missing_def extra_def other ms(1) es(1)])
    moreover from nonempty ms(2) es(2) have "ms @ es \<noteq> []" by auto
    ultimately show ?thesis using False by simp
  qed
qed

text \<open>
  Claim C1 as stated speaks of multisets. Old keys \<open>[K, K]\<close> and new keys \<open>[K]\<close> are
  different multisets, and the strategy returns no record.
\<close>

theorem plist_keys_multiset_counterexample:
  "mset (key_texts [Node ''key'' [] (Some ''K'') [], Node ''key'' [] (Some ''K'') []])
     \<noteq> mset (key_texts [Node ''key'' [] (Some ''K'') []])
   \<and> handle_plist_keys [Node ''key'' [] (Some ''K'') [], Node ''key'' [] (Some ''K'') []]
        [Node ''key'' [] (Some ''K'') []] ''plist.plist.dict'' ''key'' = Inr []"
  by (simp add: handle_plist_keys_def key_texts_def strip_def text_or_empty_def is_space_def)

lemma filter_singleton_set:
  assumes "set xs - A = {m}" and "count_list xs m = 1"
  shows "filter (\<lambda>k. k \<notin> A) xs = [m]"
proof -
  from assms(1) have "filter (\<lambda>k. k \<notin> A) xs = filter ((=) m) xs"
    by (intro filter_cong) auto
  moreover from assms(2) have "length (filter ((=) m) xs) = 1"
    by (simp add: count_list_eq_length_filter)
  then have "filter ((=) m) xs = [m]"
    by (cases "filter ((=) m) xs") (auto simp: filter_eq_Cons_iff)
  ultimately show ?thesis by simp
qed

text \<open>
  Claim C4, as amended (rename collapsing). When \<open>m\<close> is the only value among the old key
  texts that the new side lacks, \<open>n\<close> the only value among the new key texts that the old side
  lacks, and each of the two occurs once in its list, then \<open>handle_plist_keys\<close> returns
  exactly one record: the Mismatch of subtype \<open>text\<close> at the index \<open>i\<close> of \<open>m\<close> in the old list,
  with \<open>m\<close> as old and \<open>n\<close> as new value.
\<close>

theorem plist_keys_rename:
  assumes "set (key_texts old_list) - set (key_texts new_list) = {m}"
    and "set (key_texts new_list) - set (key_texts old_list) = {n}"
    and "count_list (key_texts old_list) m = 1"
    and "count_list (key_texts new_list) n = 1"
  shows "\<exists>i. list_index (key_texts old_list) m = Inr i \<and> i < length old_list \<and>
             key_texts old_list ! i = m \<and>
             handle_plist_keys old_list new_list path tg =
               Inr [(TYPE_MISMATCH,
                     \<lparr>d_category = CATEGORY_MISMATCH,
                      d_path = path @ ''.'' @ tg @ ''['' @ str_nat i @ '']'' @ '' text'',
                      d_old = Some (PyStr m), d_new = Some (PyStr n),
                      d_type = Some ''text'', d_value = None\<rparr>)]"
proof -
  from assms(1) have m_in: "m \<in> set (key_texts old_list)" and differ: "set (key_texts old_list) \<noteq> set (key_texts new_list)"
    by auto
  from list_index_mem [OF m_in] obtain i where i: "list_index (key_texts old_list) m = Inr i"
    "i < length (key_texts old_list)" "key_texts old_list ! i = m"
    by auto
  have missing: "filter (\<lambda>k. k \<notin> set (key_texts new_list)) (key_texts old_list) = [m]"
    by (rule filter_singleton_set [OF assms(1) assms(3)])
  have extra: "filter (\<lambda>k. k \<notin> set (key_texts old_list)) (key_texts new_list) = [n]"
    by (rule filter_singleton_set [OF assms(2) assms(4)])
  from handle_plist_keys_one_changed [OF differ missing extra i(1)] i
  show ?thesis by (simp add: key_texts_def)
qed

text \<open>The spec's example: old keys \<open>[K, M]\<close>, new keys \<open>[K, N]\<close>.\<close>

theorem plist_keys_rename_witness:
  "set (key_texts [Node ''key'' [] (Some ''K'') [], Node ''key'' [] (Some ''M'') []])
     - set (key_texts [Node ''key'' [] (Some ''K'') [], Node ''key'' [] (Some ''N'') []]) = {''M''}
   \<and> set (key_texts [Node ''key'' [] (Some ''K'') [], Node ''key'' [] (Some ''N'') []])
     - set (key_texts [Node ''key'' [] (Some ''K'') [], Node ''key'' [] (Some ''M'') []]) = {''N''}
   \<and> count_list (key_texts [Node ''key'' [] (Some ''K'') [], Node ''key'' [] (Some ''M'') []]) ''M'' = 1
   \<and> count_list (key_texts [Node ''key'' [] (Some ''K'') [], Node ''key'' [] (Some ''N'') []]) ''N'' = 1
   \<and> handle_plist_keys [Node ''key'' [] (Some ''K'') [], Node ''key'' [] (Some ''M'') []]
        [Node ''key'' [] (Some ''K'') [], Node ''key'' [] (Some ''N'') []] ''root.plist.dict'' ''key'' =
      Inr [(''mismatch'',
            \<lparr>d_category = ''mismatching in old.xml and new.xml'',
             d_path = ''root.plist.dict.key[1] text'',
             d_old = Some (PyStr ''M''), d_new = Some (PyStr ''N''),
             d_type = Some ''text'', d_value = None\<rparr>)]"
proof -
  let ?old = "[Node ''key'' [] (Some ''K'') [], Node ''key'' [] (Some ''M'') []]"
  let ?new = "[Node ''key'' [] (Some ''K'') [], Node ''key'' [] (Some ''N'') []]"
  have kt: "key_texts ?old = [''K'', ''M'']" "key_texts ?new = [''K'', ''N'']"
    by (simp_all add: key_texts_def strip_def text_or_empty_def is_space_def)
  have h1: "set (key_texts ?old) - set (key_texts ?new) = {''M''}"
    and h2: "set (key_texts ?new) - set (key_texts ?old) = {''N''}"
    and h3: "count_list (key_texts ?old) ''M'' = 1"
    and h4: "count_list (key_texts ?new) ''N'' = 1"
    unfolding kt by auto
  from plist_keys_rename [OF h1 h2 h3 h4, of "''root.plist.dict''" "''key''"]
  have "handle_plist_keys ?old ?new ''root.plist.dict'' ''key'' =
      Inr [(''mismatch'',
            \<lparr>d_category = ''mismatching in old.xml and new.xml'',
             d_path = ''root.plist.dict.key[1] text'',
             d_old = Some (PyStr ''M''), d_new = Some (PyStr ''N''),
             d_type = Some ''text'', d_value = None\<rparr>)]"
    unfolding kt by (auto simp: TYPE_MISMATCH_def CATEGORY_MISMATCH_def str_nat.simps digit_char_def)
  with h1 h2 h3 h4 show ?thesis by blast
qed

text \<open>
  Claim C4 as stated fails where a value occurs more than once. Old keys \<open>[M, M]\<close> and new
  keys \<open>[N]\<close>: the one value \<open>M\<close> is removed and the one value \<open>N\<close> is added, and the strategy
  returns two MissingNode records and one ExtraNode record. Old keys \<open>[M, M, N]\<close> and new keys
  \<open>[M, N, N]\<close>: as multisets one \<open>M\<close> is removed and one \<open>N\<close> is added, and the strategy
  returns nothing.
\<close>

theorem plist_keys_rename_counterexample:
  "set (key_texts [Node ''key'' [] (Some ''M'') [], Node ''key'' [] (Some ''M'') []])
     - set (key_texts [Node ''key'' [] (Some ''N'') []]) = {''M''}
   \<and> set (key_texts [Node ''key'' [] (Some ''N'') []])
     - set (key_texts [Node ''key'' [] (Some ''M'') [], Node ''key'' [] (Some ''M'') []]) = {''N''}
   \<and> handle_plist_keys [Node ''key'' [] (Some ''M'') [], Node ''key'' [] (Some ''M'') []]
        [Node ''key'' [] (Some ''N'') []] ''root.plist.dict'' ''key'' =
      Inr [(''missing node'',
            \<lparr>d_category = ''missing in new.xml while present in old.xml'',
             d_path = ''root.plist.dict.key[0] text'', d_old = Some (PyStr ''M''),
             d_new = None, d_type = None, d_value = Some ''M''\<rparr>),
           (''missing node'',
            \<lparr>d_category = ''missing in new.xml while present in old.xml'',
             d_path = ''root.plist.dict.key[0] text'', d_old = Some (PyStr ''M''),
             d_new = None, d_type = None, d_value = Some ''M''\<rparr>),
           (''extra node'',
            \<lparr>d_category = ''extra in new.xml'',
             d_path = ''root.plist.dict.key[0] text'', d_old = None,
             d_new = Some (PyStr ''N''), d_type = None, d_value = Some ''N''\<rparr>)]
   \<and> mset (key_texts [Node ''key'' [] (Some ''M'') [], Node ''key'' [] (Some ''M'') [], Node ''key'' [] (Some ''N'') []])
       - mset (key_texts [Node ''key'' [] (Some ''M'') [], Node ''key'' [] (Some ''N'') [], Node ''key'' [] (Some ''N'') []]) = {#''M''#}
   \<and> mset (key_texts [Node ''key'' [] (Some ''M'') [], Node ''key'' [] (Some ''N'') [], Node ''key'' [] (Some ''N'') []])
       - mset (key_texts [Node ''key'' [] (Some ''M'') [], Node ''key'' [] (Some ''M'') [], Node ''key'' [] (Some ''N'') []]) = {#''N''#}
   \<and> handle_plist_keys [Node ''key'' [] (Some ''M'') [], Node ''key'' [] (Some ''M'') [], Node ''key'' [] (Some ''N'') []]
       [Node ''key'' [] (Some ''M'') [], Node ''key'' [] (Some ''N'') [], Node ''key'' [] (Some ''N'') []] ''root.plist.dict'' ''key'' = Inr []"
  by (simp add: handle_plist_keys_def key_texts_def strip_def text_or_empty_def is_space_def
       TYPE_MISSING_def TYPE_EXTRA_def CATEGORY_MISSING_def CATEGORY_EXTRA_def info_def
       str_nat.simps digit_char_def insert_Diff_if)

subsection \<open>Path normalization\<close>

text \<open>
  Claim C9 (the bracketed segment \<^verbatim>\<open>object[...]\<close> becomes \<^verbatim>\<open>object.{...}\<close>). The code does
  not meet it when the key-based segment is not the last one. Comparing two documents whose
  keyed \<^verbatim>\<open>object\<close> has two \<^verbatim>\<open>item\<close> children on the old side and one on the new side yields a
  MissingNode record at \<^verbatim>\<open>database.object[name: a].item[1]\<close>; \<open>normalize_path\<close> turns that
  path into \<^verbatim>\<open>database.object.{name: a].item[1}\<close>: the bracket that closes the key stays
  and the bracket of the index becomes a brace.
\<close>

theorem normalize_path_unbalanced:
  "diff_elements
     (Some (Node ''database'' [] None
        [Node ''object'' [(''type'', ''XDDEVATTRIBUTEMAPPING'')] None
           [Node ''attribute'' [(''name'', ''name'')] (Some ''a'') [],
            Node ''item'' [] (Some ''1'') [], Node ''item'' [] (Some ''2'') []]]))
     (Some (Node ''database'' [] None
        [Node ''object'' [(''type'', ''XDDEVATTRIBUTEMAPPING'')] None
           [Node ''attribute'' [(''name'', ''name'')] (Some ''a'') [],
            Node ''item'' [] (Some ''1'') []]]))
     ''database''
   = Inr [(''missing node'',
           \<lparr>d_category = ''missing in new.xml while present in old.xml'',
            d_path = ''database.object[name: a].item[1]'',
            d_old = Some (PyStr (''item: '' @ [CHR 0x27] @ ''2'' @ [CHR 0x27])), d_new = None,
            d_type = None, d_value = Some ''2''\<rparr>)]
   \<and> normalize_path ''database.object[name: a].item[1]'' = ''database.object.{name: a].item[1}''"
  by code_simp

subsection \<open>The object dictionary\<close>

lemma format_object_key_ok:
  assumes "get_object_key c = Inr k" and "tag c = ''object''"
  shows "\<exists>s. format_object_key k = Inr s"
  using assms
  by (auto simp: get_object_key_def create_event_entity_mapping_key_def
      create_attribute_or_relationship_mapping_key_def create_mapping_model_key_def Let_def
      format_object_key_def py_nth_def py_of_def
      split: if_splits sum.splits)

lemma compare_text_self: "compare_text n n p = []"
  by (simp add: compare_text_def)

lemma compare_attributes_self: "compare_attributes n n p = []"
  by (simp add: compare_attributes_def)

lemma handle_plist_keys_self: "handle_plist_keys xs xs p t = Inr []"
  by (simp add: handle_plist_keys_def)

lemma extend_each_all_empty:
  "(\<And>x. x \<in> set xs \<Longrightarrow> f x = Inr []) \<Longrightarrow> extend_each f xs = Inr []"
  by (induction xs) auto

lemma object_dict_loop_Inr:
  "(\<And>c. c \<in> set xs \<Longrightarrow> \<not> isl (get_object_key c)) \<Longrightarrow>
   object_dict_loop d xs = Inr (foldl (\<lambda>d c. AList.update (the_key c) c d) d xs)"
proof (induction xs arbitrary: d)
  case Nil
  then show ?case by simp
next
  case (Cons a xs)
  from Cons.prems have "\<not> isl (get_object_key a)" by simp
  then obtain k where k: "get_object_key a = Inr k" by (cases "get_object_key a") auto
  then have "the_key a = k" by (simp add: the_key_def)
  with k Cons show ?case by simp
qed

lemma object_dict_loop_Inl:
  "c \<in> set xs \<Longrightarrow> isl (get_object_key c) \<Longrightarrow> isl (object_dict_loop d xs)"
  by (induction xs arbitrary: d) (auto split: sum.splits)

lemma find_append_list:
  "find P (xs @ ys) = (case find P xs of None \<Rightarrow> find P ys | Some x \<Rightarrow> Some x)"
  by (induction xs) auto

lemma map_of_foldl_update:
  "map_of (foldl (\<lambda>d c. AList.update (kf c) c d) d xs) k =
     (case find (\<lambda>c. kf c = k) (rev xs) of None \<Rightarrow> map_of d k | Some c \<Rightarrow> Some c)"
  by (induction xs arbitrary: d) (auto simp: update_conv' find_append_list split: option.splits)

lemma keys_foldl_update:
  "fst ` set (foldl (\<lambda>d c. AList.update (kf c) c d) d xs) = fst ` set d \<union> kf ` set xs"
  by (induction xs arbitrary: d) (auto simp: dom_update)

lemma object_dict_Inr:
  "(\<And>c. c \<in> set xs \<Longrightarrow> \<not> isl (get_object_key c)) \<Longrightarrow>
   object_dict xs = Inr (foldl (\<lambda>d c. AList.update (the_key c) c d) [] xs)"
  by (simp add: object_dict_def object_dict_loop_Inr)

lemma object_dict_Inl:
  "c \<in> set xs \<Longrightarrow> isl (get_object_key c) \<Longrightarrow> isl (object_dict xs)"
  by (simp add: object_dict_def object_dict_loop_Inl)

lemma object_dict_cases:
  obtains (raises) c where "c \<in> set xs" "isl (get_object_key c)" "isl (object_dict xs)"
  | (returns) "\<And>c. c \<in> set xs \<Longrightarrow> \<not> isl (get_object_key c)"
      "object_dict xs = Inr (foldl (\<lambda>d c. AList.update (the_key c) c d) [] xs)"
  using object_dict_Inr object_dict_Inl by blast

lemma object_dict_lookup:
  "map_of (foldl (\<lambda>d c. AList.update (the_key c) c d) [] xs) k =
     find (\<lambda>c. the_key c = k) (rev xs)"
  by (simp add: map_of_foldl_update split: option.splits)

lemma object_dict_keys:
  "set (map fst (foldl (\<lambda>d c. AList.update (the_key c) c d) [] xs)) = the_key ` set xs"
  using keys_foldl_update [of the_key "[]" xs] by simp

subsection \<open>Comparing a tree with itself\<close>

lemma keys_ok_children: "keys_ok t = children_ok (children t)"
  by (cases t) (simp add: children_ok_def)

lemma quiet_Inr [simp]: "quiet (Inr []) ok"
  by (simp add: quiet_def)

lemma quiet_weaken: "quiet r ok \<Longrightarrow> (ok' \<Longrightarrow> ok) \<Longrightarrow> quiet r ok'"
  by (auto simp: quiet_def)

lemma extend_each_quiet:
  "(\<And>x. x \<in> set xs \<Longrightarrow> quiet (f x) ok) \<Longrightarrow> quiet (extend_each f xs) ok"
proof (induction xs)
  case Nil
  then show ?case by simp
next
  case (Cons a xs)
  then have a: "quiet (f a) ok" and rest: "quiet (extend_each f xs) ok" by auto
  then show ?case by (auto simp: quiet_def split: sum.splits)
qed

lemma self_step_elements:
  assumes "quiet (diff_children (children t) (children t) p) (children_ok (children t))"
  shows "quiet (diff_elements (Some t) (Some t) p) (keys_ok t)"
  using assms
  by (auto simp: diff_elements_both compare_text_self compare_attributes_self quiet_def
      keys_ok_children split: sum.splits)

lemma self_step_children:
  assumes obj: "\<And>l. l = filter (\<lambda>e. tag e = ''object'') (filter_children cs) \<Longrightarrow>
            quiet (handle_object_nodes l l p) (\<forall>c\<in>set l. \<not> isl (get_object_key c) \<and> keys_ok c)"
    and dflt: "\<And>tg l. l = filter (\<lambda>e. tag e = tg) (filter_children cs) \<Longrightarrow>
            quiet (handle_default_children l l p tg) (\<forall>c\<in>set l. keys_ok c)"
  shows "quiet (diff_children cs cs p) (children_ok cs)"
proof -
  have sub: "set (filter_children cs) \<subseteq> set cs"
    by (auto simp: filter_children_def)
  show ?thesis
    unfolding diff_children.simps [of cs cs p] Let_def group_by_tag_lookup
  proof (rule extend_each_quiet)
    fix tg
    let ?l = "filter (\<lambda>e. tag e = tg) (filter_children cs)"
    show "quiet (if tg = ''key'' \<and> str_contains ''.plist.dict'' p
                 then handle_plist_keys ?l ?l p tg
                 else if tg = ''object'' then handle_object_nodes ?l ?l p
                 else handle_default_children ?l ?l p tg) (children_ok cs)"
    proof (cases "tg = ''key'' \<and> str_contains ''.plist.dict'' p")
      case True
      then show ?thesis by (simp add: handle_plist_keys_self)
    next
      case notkey: False
      show ?thesis
      proof (cases "tg = ''object''")
        case True
        have "quiet (handle_object_nodes ?l ?l p) (children_ok cs)"
          by (rule quiet_weaken [OF obj]) (use True sub in \<open>auto simp: children_ok_def\<close>)
        with True notkey show ?thesis by auto
      next
        case False
        have "quiet (handle_default_children ?l ?l p tg) (children_ok cs)"
          by (rule quiet_weaken [OF dflt]) (use sub in \<open>auto simp: children_ok_def\<close>)
        with False notkey show ?thesis by auto
      qed
    qed
  qed
qed


lemma find_Some_mem: "find P xs = Some x \<Longrightarrow> x \<in> set xs \<and> P x"
  by (auto simp: find_Some_iff)

lemma self_step_objects:
  assumes tags: "\<And>c. c \<in> set l \<Longrightarrow> tag c = ''object''"
    and rec: "\<And>c sp. c \<in> set l \<Longrightarrow> quiet (diff_elements (Some c) (Some c) sp) (keys_ok c)"
  shows "quiet (handle_object_nodes l l p) (\<forall>c\<in>set l. \<not> isl (get_object_key c) \<and> keys_ok c)"
proof (cases l rule: object_dict_cases)
  case (raises c)
  then show ?thesis
    by (auto simp: handle_object_nodes.simps [of l l p] quiet_def split: sum.splits)
next
  case returns
  let ?d = "foldl (\<lambda>d c. AList.update (the_key c) c d) [] l"
  let ?ok = "\<forall>c\<in>set l. \<not> isl (get_object_key c) \<and> keys_ok c"
  let ?body = "\<lambda>k. case format_object_key k of Inl e \<Rightarrow> Inl e | Inr desc \<Rightarrow>
            (let subpath = p @ ''.object['' @ desc @ '']''
             in case map_of ?d k of
                  None \<Rightarrow>
                    (case map_of ?d k of None \<Rightarrow> Inl AttributeError
                     | Some child_new \<Rightarrow>
                         (case format_element child_new of Inl e \<Rightarrow> Inl e
                          | Inr s \<Rightarrow>
                              Inr [(TYPE_EXTRA,
                                    (info CATEGORY_EXTRA subpath)\<lparr>d_new := Some (PyStr s)\<rparr>)]))
                | Some child_old \<Rightarrow>
                    (case map_of ?d k of
                       None \<Rightarrow>
                         (case format_element child_old of Inl e \<Rightarrow> Inl e
                          | Inr s \<Rightarrow>
                              Inr [(TYPE_MISSING,
                                    (info CATEGORY_MISSING subpath)\<lparr>d_old := Some (PyStr s)\<rparr>)])
                     | Some child_new \<Rightarrow>
                         diff_elements (Some child_old) (Some child_new) subpath))"
  have eq: "handle_object_nodes l l p = extend_each ?body (set_union (map fst ?d) (map fst ?d))"
    by (simp add: handle_object_nodes.simps [of l l p] returns(2))
  have "quiet (extend_each ?body (set_union (map fst ?d) (map fst ?d))) ?ok"
  proof (rule extend_each_quiet)
    fix k assume "k \<in> set (set_union (map fst ?d) (map fst ?d))"
    then have "k \<in> the_key ` set l"
      using object_dict_keys [of l] by (simp add: set_union_def)
    then obtain c0 where c0: "c0 \<in> set l" "the_key c0 = k" by auto
    from returns(1) [OF c0(1)] c0(2) have "get_object_key c0 = Inr k"
      by (cases "get_object_key c0") (auto simp: the_key_def)
    with tags c0 obtain s where s: "format_object_key k = Inr s"
      using format_object_key_ok by blast
    from c0 have "find (\<lambda>c. the_key c = k) (rev l) \<noteq> None"
      by (auto simp: find_None_iff)
    then obtain c where c: "map_of ?d k = Some c"
      by (auto simp: object_dict_lookup)
    then have cin: "c \<in> set l"
      using find_Some_mem [of "\<lambda>c. the_key c = k" "rev l" c] by (simp add: object_dict_lookup)
    from s c have "?body k = diff_elements (Some c) (Some c) (p @ ''.object['' @ s @ '']'')"
      by simp
    moreover have "quiet (diff_elements (Some c) (Some c) (p @ ''.object['' @ s @ '']'')) ?ok"
      by (rule quiet_weaken [OF rec [OF cin]]) (use cin in auto)
    ultimately show "quiet (?body k) ?ok" by simp
  qed
  with eq show ?thesis by simp
qed

lemma self_step_default:
  assumes rec: "\<And>c sp. c \<in> set l \<Longrightarrow> quiet (diff_elements (Some c) (Some c) sp) (keys_ok c)"
  shows "quiet (handle_default_children l l p tg) (\<forall>c\<in>set l. keys_ok c)"
  unfolding handle_default_children.simps [of l l p tg] Let_def
proof (rule extend_each_quiet)
  fix i assume "i \<in> set [0..<max (length l) (length l)]"
  then have i: "i < length l" by simp
  then have "quiet (diff_elements (Some (l ! i)) (Some (l ! i))
      (if max (length l) (length l) = 1 then p @ ''.'' @ tg
       else p @ ''.'' @ tg @ ''['' @ str_nat i @ '']'')) (\<forall>c\<in>set l. keys_ok c)"
    by (intro quiet_weaken [OF rec]) auto
  with i show "quiet (diff_elements (if i < length l then Some (l ! i) else None)
      (if i < length l then Some (l ! i) else None)
      (if max (length l) (length l) = 1 then p @ ''.'' @ tg
       else p @ ''.'' @ tg @ ''['' @ str_nat i @ '']'')) (\<forall>c\<in>set l. keys_ok c)"
    by simp
qed


lemma diff_self_quiet: "quiet (diff_elements (Some t) (Some t) p) (keys_ok t)"
proof (induction t arbitrary: p)
  case (Node tg a x cs)
  have rec: "quiet (diff_elements (Some c) (Some c) sp) (keys_ok c)"
    if "c \<in> set l" "set l \<subseteq> set cs" for c sp l
    using that Node.IH by auto
  have sub: "set (filter P (filter_children cs)) \<subseteq> set cs" for P
    by (auto simp: filter_children_def)
  have "quiet (diff_children cs cs p) (children_ok cs)"
  proof (rule self_step_children)
    fix l assume l: "l = filter (\<lambda>e. tag e = ''object'') (filter_children cs)"
    show "quiet (handle_object_nodes l l p) (\<forall>c\<in>set l. \<not> isl (get_object_key c) \<and> keys_ok c)"
    proof (rule self_step_objects)
      fix c assume "c \<in> set l"
      with l show "tag c = ''object''" by simp
    next
      fix c sp assume "c \<in> set l"
      with l sub show "quiet (diff_elements (Some c) (Some c) sp) (keys_ok c)"
        by (intro rec [of c l]) auto
    qed
  next
    fix tg' l assume l: "l = filter (\<lambda>e. tag e = tg') (filter_children cs)"
    show "quiet (handle_default_children l l p tg') (\<forall>c\<in>set l. keys_ok c)"
    proof (rule self_step_default)
      fix c sp assume "c \<in> set l"
      with l sub show "quiet (diff_elements (Some c) (Some c) sp) (keys_ok c)"
        by (intro rec [of c l]) auto
    qed
  qed
  then show ?case
    using self_step_elements [of "Node tg a x cs" p] by simp
qed

lemma diff_self_empty: "keys_ok t \<Longrightarrow> diff_elements (Some t) (Some t) p = Inr []"
  using diff_self_quiet [of t p] by (auto simp: quiet_def)

lemma diff_self_no_record: "diff_elements (Some t) (Some t) p = Inr ds \<Longrightarrow> ds = []"
  using diff_self_quiet [of t p] by (auto simp: quiet_def)

text \<open>
  Claim C5 (idempotence: \<open>diff_elements T T p\<close> is empty for every tree). The code does not
  meet it for every tree: on a tree that holds an entity-mapping object with a present, empty
  \<^verbatim>\<open>sourcename\<close> sub-field, the comparison of the tree with itself raises
  \<^verbatim>\<open>AttributeError\<close> (the defect of claim C2). On every tree where key derivation succeeds
  the result is empty (\<open>diff_self_empty\<close>), and no tree yields a record
  (\<open>diff_self_no_record\<close>).
\<close>

theorem diff_self_raises:
  "diff_elements
     (Some (Node ''database'' [] None
        [Node ''object'' [(''type'', ''XDDEVENTITYMAPPING'')] None
           [Node ''attribute'' [(''name'', ''sourcename'')] None []]]))
     (Some (Node ''database'' [] None
        [Node ''object'' [(''type'', ''XDDEVENTITYMAPPING'')] None
           [Node ''attribute'' [(''name'', ''sourcename'')] None []]]))
     ''database'' = Inl AttributeError"
  by code_simp

subsection \<open>The key-based strategy\<close>

lemma extend_each_Inr_iff:
  "extend_each f (a # xs) = Inr ds \<longleftrightarrow>
     (\<exists>d1 d2. f a = Inr d1 \<and> extend_each f xs = Inr d2 \<and> ds = d1 @ d2)"
  by (cases "f a"; cases "extend_each f xs") auto

lemma extend_each_isl: "isl (extend_each f xs) = (\<exists>x\<in>set xs. isl (f x))"
proof (induction xs)
  case Nil
  then show ?case by simp
next
  case (Cons a xs)
  have "isl (extend_each f (a # xs)) = (isl (f a) \<or> isl (extend_each f xs))"
    by (cases "f a"; cases "extend_each f xs") simp_all
  with Cons show ?case by simp
qed

lemma extend_each_set:
  "extend_each f xs = Inr ds \<Longrightarrow> set ds = (\<Union>x\<in>set xs. set (projr (f x)))"
proof (induction xs arbitrary: ds)
  case Nil
  then show ?case by simp
next
  case (Cons a xs)
  from Cons.prems obtain d1 d2 where d: "f a = Inr d1" "extend_each f xs = Inr d2" "ds = d1 @ d2"
    unfolding extend_each_Inr_iff by blast
  from Cons.IH [OF d(2)] d(1,3) show ?case by simp
qed

lemma diff_set_extend_each:
  "diff_set (extend_each f xs) =
     (if \<exists>x\<in>set xs. isl (f x) then None else Some (\<Union>x\<in>set xs. set (projr (f x))))"
proof (cases "extend_each f xs")
  case (Inl e)
  then have "isl (extend_each f xs)" by simp
  then have "\<exists>x\<in>set xs. isl (f x)" by (simp add: extend_each_isl)
  with Inl show ?thesis by (simp add: diff_set_def)
next
  case (Inr ds)
  then have "\<not> isl (extend_each f xs)" by simp
  then have none: "\<not> (\<exists>x\<in>set xs. isl (f x))" by (simp add: extend_each_isl)
  have "diff_set (extend_each f xs) = Some (\<Union>x\<in>set xs. set (projr (f x)))"
    using Inr extend_each_set [OF Inr] by (simp add: diff_set_def)
  with none show ?thesis by (simp only: if_False)
qed

lemma diff_set_extend_each_cong:
  "set xs = set ys \<Longrightarrow> (\<And>x. x \<in> set ys \<Longrightarrow> f x = g x) \<Longrightarrow>
   diff_set (extend_each f xs) = diff_set (extend_each g ys)"
  by (simp add: diff_set_extend_each)

lemma diff_set_isl: "isl r \<Longrightarrow> diff_set r = None"
  by (cases r) (auto simp: diff_set_def)

lemma handle_object_nodes_raises:
  "c \<in> set ol \<union> set nl \<Longrightarrow> isl (get_object_key c) \<Longrightarrow> isl (handle_object_nodes ol nl p)"
  using object_dict_Inl [of c ol] object_dict_Inl [of c nl]
  by (auto simp: handle_object_nodes.simps [of ol nl p] split: sum.splits)

lemma handle_object_nodes_returns:
  assumes "\<And>c. c \<in> set ol \<union> set nl \<Longrightarrow> \<not> isl (get_object_key c)"
  shows "handle_object_nodes ol nl p =
     extend_each (\<lambda>k. object_pair p k (last_with_key ol k) (last_with_key nl k))
       (set_union (map fst (foldl (\<lambda>d c. AList.update (the_key c) c d) [] ol))
                  (map fst (foldl (\<lambda>d c. AList.update (the_key c) c d) [] nl)))"
proof -
  have "object_dict ol = Inr (foldl (\<lambda>d c. AList.update (the_key c) c d) [] ol)"
    and "object_dict nl = Inr (foldl (\<lambda>d c. AList.update (the_key c) c d) [] nl)"
    using assms by (auto intro: object_dict_Inr)
  then have "handle_object_nodes ol nl p =
     extend_each (\<lambda>k. object_pair p k
         (map_of (foldl (\<lambda>d c. AList.update (the_key c) c d) [] ol) k)
         (map_of (foldl (\<lambda>d c. AList.update (the_key c) c d) [] nl) k))
       (set_union (map fst (foldl (\<lambda>d c. AList.update (the_key c) c d) [] ol))
                  (map fst (foldl (\<lambda>d c. AList.update (the_key c) c d) [] nl)))"
    unfolding object_pair_def by (simp only: handle_object_nodes.simps [of ol nl p] sum.case)
  then show ?thesis
    by (simp only: object_dict_lookup last_with_key_def)
qed

lemma set_union_set: "set (set_union a b) = set a \<union> set b"
  by (simp add: set_union_def)

text \<open>The set of records of the key-based strategy, in terms of the sibling sets and the last
  sibling of every key.\<close>

lemma handle_object_nodes_set:
  "diff_set (handle_object_nodes ol nl p) =
     (if \<exists>c\<in>set ol \<union> set nl. isl (get_object_key c) then None
      else diff_set (extend_each (\<lambda>k. object_pair p k (last_with_key ol k) (last_with_key nl k))
             (set_union (map the_key ol) (map the_key nl))))"
proof (cases "\<exists>c\<in>set ol \<union> set nl. isl (get_object_key c)")
  case True
  then obtain c where "c \<in> set ol \<union> set nl" "isl (get_object_key c)" by blast
  then have "isl (handle_object_nodes ol nl p)" by (rule handle_object_nodes_raises)
  then have "diff_set (handle_object_nodes ol nl p) = None" by (rule diff_set_isl)
  with True show ?thesis by (simp only: if_True)
next
  case False
  then have ok: "\<not> isl (get_object_key c)" if "c \<in> set ol \<union> set nl" for c
    using that by blast
  have eq: "handle_object_nodes ol nl p =
     extend_each (\<lambda>k. object_pair p k (last_with_key ol k) (last_with_key nl k))
       (set_union (map fst (foldl (\<lambda>d c. AList.update (the_key c) c d) [] ol))
                  (map fst (foldl (\<lambda>d c. AList.update (the_key c) c d) [] nl)))"
    by (rule handle_object_nodes_returns) (rule ok)
  have "diff_set (handle_object_nodes ol nl p) =
      diff_set (extend_each (\<lambda>k. object_pair p k (last_with_key ol k) (last_with_key nl k))
             (set_union (map the_key ol) (map the_key nl)))"
    unfolding eq
  proof (rule diff_set_extend_each_cong)
    show "set (set_union (map fst (foldl (\<lambda>d c. AList.update (the_key c) c d) [] ol))
                  (map fst (foldl (\<lambda>d c. AList.update (the_key c) c d) [] nl))) =
          set (set_union (map the_key ol) (map the_key nl))"
      unfolding set_union_set object_dict_keys by simp
  qed (rule refl)
  with False show ?thesis by (simp only: if_False)
qed

lemma the_key_eq:
  "\<not> isl (get_object_key a) \<Longrightarrow> \<not> isl (get_object_key b) \<Longrightarrow>
   the_key a = the_key b \<longleftrightarrow> get_object_key a = get_object_key b"
  by (cases "get_object_key a"; cases "get_object_key b") (auto simp: the_key_def)

lemma last_with_key_drop:
  assumes "the_key a = the_key b" and "b \<in> set ys"
  shows "last_with_key (xs @ a # ys) k = last_with_key (xs @ ys) k"
proof (cases "find (\<lambda>c. the_key c = k) (rev ys)")
  case None
  with assms have "the_key a \<noteq> k"
    by (auto simp: find_None_iff)
  with None show ?thesis
    by (simp add: last_with_key_def find_append_list)
next
  case (Some c)
  then show ?thesis
    by (simp add: last_with_key_def find_append_list)
qed

lemma last_with_key_None: "last_with_key xs k = None \<longleftrightarrow> k \<notin> the_key ` set xs"
  by (auto simp: last_with_key_def find_None_iff)

lemma last_with_key_Some: "last_with_key xs k = Some c \<Longrightarrow> c \<in> set xs \<and> the_key c = k"
  using find_Some_mem [of "\<lambda>c. the_key c = k" "rev xs" c] by (simp add: last_with_key_def)

lemma last_with_key_set:
  assumes "set xs = set ys"
    and uniq: "\<And>a b. a \<in> set xs \<Longrightarrow> b \<in> set xs \<Longrightarrow> the_key a = the_key b \<Longrightarrow> a = b"
  shows "last_with_key xs k = last_with_key ys k"
proof (cases "last_with_key xs k")
  case None
  then have "k \<notin> the_key ` set ys" using assms(1) by (simp add: last_with_key_None)
  then have "last_with_key ys k = None" by (simp add: last_with_key_None)
  with None show ?thesis by simp
next
  case (Some c)
  then have c: "c \<in> set xs" "the_key c = k" by (auto dest: last_with_key_Some)
  then have "k \<in> the_key ` set ys" using assms(1) by auto
  then obtain c' where c': "last_with_key ys k = Some c'"
    by (cases "last_with_key ys k") (auto simp: last_with_key_None)
  then have "c' \<in> set xs" "the_key c' = k" using assms(1) by (auto dest: last_with_key_Some)
  with c have "c' = c" by (auto intro: uniq)
  with Some c' show ?thesis by simp
qed

text \<open>
  Claim C10 (duplicate-key collapse). A sibling \<open>a\<close> that is followed by a sibling \<open>b\<close> with
  the same derived key takes no part in the comparison: removing \<open>a\<close> from the old list, or
  from the new list, leaves the outcome of \<open>handle_object_nodes\<close> unchanged (the same set of
  records, or an exception in both cases). So of the siblings with one key only the last
  one is compared, and the earlier ones yield no record.
\<close>

theorem duplicate_key_collapse:
  assumes "get_object_key a = Inr k" and "b \<in> set ys" and "get_object_key b = Inr k"
  shows "diff_set (handle_object_nodes (xs @ a # ys) new_list path)
           = diff_set (handle_object_nodes (xs @ ys) new_list path)
       \<and> diff_set (handle_object_nodes old_list (xs @ a # ys) path)
           = diff_set (handle_object_nodes old_list (xs @ ys) path)"
proof -
  from assms have ab: "the_key a = the_key b" and a_ok: "\<not> isl (get_object_key a)"
    by (simp_all add: the_key_def)
  have lw: "last_with_key (xs @ a # ys) k' = last_with_key (xs @ ys) k'" for k'
    by (rule last_with_key_drop [OF ab assms(2)])
  have "the_key ` set (xs @ a # ys) = the_key ` set (xs @ ys)"
    using ab assms(2) by auto
  then have keys: "set (map the_key (xs @ a # ys)) = set (map the_key (xs @ ys))"
    by (simp only: set_map)
  have keys1: "set (set_union (map the_key (xs @ a # ys)) m) = set (set_union (map the_key (xs @ ys)) m)"
    and keys2: "set (set_union m (map the_key (xs @ a # ys))) = set (set_union m (map the_key (xs @ ys)))"
    for m
    by (simp_all only: set_union_set keys)
  have raises: "(\<exists>c\<in>set (xs @ a # ys) \<union> S. isl (get_object_key c))
      = (\<exists>c\<in>set (xs @ ys) \<union> S. isl (get_object_key c))" for S
    using a_ok by auto
  have "diff_set (extend_each (\<lambda>k. object_pair path k (last_with_key (xs @ a # ys) k)
              (last_with_key new_list k))
            (set_union (map the_key (xs @ a # ys)) (map the_key new_list)))
      = diff_set (extend_each (\<lambda>k. object_pair path k (last_with_key (xs @ ys) k)
              (last_with_key new_list k))
            (set_union (map the_key (xs @ ys)) (map the_key new_list)))"
    by (rule diff_set_extend_each_cong) (simp_all only: keys1 lw)
  moreover
  have "diff_set (extend_each (\<lambda>k. object_pair path k (last_with_key old_list k)
              (last_with_key (xs @ a # ys) k))
            (set_union (map the_key old_list) (map the_key (xs @ a # ys))))
      = diff_set (extend_each (\<lambda>k. object_pair path k (last_with_key old_list k)
              (last_with_key (xs @ ys) k))
            (set_union (map the_key old_list) (map the_key (xs @ ys))))"
    by (rule diff_set_extend_each_cong) (simp_all only: keys2 lw)
  ultimately show ?thesis
    unfolding handle_object_nodes_set
    using raises [of "set new_list"] raises [of "set old_list"]
    by (simp add: Un_commute)
qed

text \<open>Two objects of an unrecognised type share the key \<^verbatim>\<open>("object",)\<close>.\<close>

theorem duplicate_key_collapse_witness:
  "get_object_key (Node ''object'' [] (Some ''x'') []) = Inr [PyStr ''object'']
   \<and> Node ''object'' [] (Some ''y'') [] \<in> set [Node ''object'' [] (Some ''y'') []]
   \<and> get_object_key (Node ''object'' [] (Some ''y'') []) = Inr [PyStr ''object'']
   \<and> diff_set (handle_object_nodes
          ([] @ Node ''object'' [] (Some ''x'') [] # [Node ''object'' [] (Some ''y'') []])
          [Node ''object'' [] (Some ''y'') []] ''database'')
       = diff_set (handle_object_nodes ([] @ [Node ''object'' [] (Some ''y'') []])
          [Node ''object'' [] (Some ''y'') []] ''database'')
   \<and> diff_set (handle_object_nodes [Node ''object'' [] (Some ''y'') []]
          ([] @ Node ''object'' [] (Some ''x'') [] # [Node ''object'' [] (Some ''y'') []]) ''database'')
       = diff_set (handle_object_nodes [Node ''object'' [] (Some ''y'') []]
          ([] @ [Node ''object'' [] (Some ''y'') []]) ''database'')"
proof -
  have a: "get_object_key (Node ''object'' [] (Some ''x'') []) = Inr [PyStr ''object'']"
    by (simp add: get_object_key_def get_def)
  have b: "get_object_key (Node ''object'' [] (Some ''y'') []) = Inr [PyStr ''object'']"
    by (simp add: get_object_key_def get_def)
  have m: "Node ''object'' [] (Some ''y'') [] \<in> set [Node ''object'' [] (Some ''y'') []]"
    by simp
  from duplicate_key_collapse [OF a m b, of "[]" "[Node ''object'' [] (Some ''y'') []]"
      "''database''" "[Node ''object'' [] (Some ''y'') []]"] a b m
  show ?thesis by blast
qed

text \<open>
  When siblings of one side that derive the same key are equal, permuting the siblings on
  either side leaves the outcome of \<open>handle_object_nodes\<close> unchanged: the same set of records,
  or an exception in both cases.
\<close>

lemma handle_object_nodes_permuted:
  assumes "mset old_list' = mset old_list" and "mset new_list' = mset new_list"
    and "distinct_keys old_list" and "distinct_keys new_list"
  shows "diff_set (handle_object_nodes old_list' new_list' path)
           = diff_set (handle_object_nodes old_list new_list path)"
proof -
  from assms(1,2) have sets: "set old_list' = set old_list" "set new_list' = set new_list"
    by (auto dest: mset_eq_setD)
  show ?thesis
  proof (cases "\<exists>c\<in>set old_list \<union> set new_list. isl (get_object_key c)")
    case True
    then show ?thesis by (simp add: handle_object_nodes_set sets)
  next
    case False
    have uniq_old: "a = b" if "a \<in> set old_list'" "b \<in> set old_list'" "the_key a = the_key b" for a b
    proof -
      from that False sets have "\<not> isl (get_object_key a)" "\<not> isl (get_object_key b)" by auto
      with that the_key_eq [of a b] assms(3) sets show ?thesis
        by (auto simp: distinct_keys_def)
    qed
    have uniq_new: "a = b" if "a \<in> set new_list'" "b \<in> set new_list'" "the_key a = the_key b" for a b
    proof -
      from that False sets have "\<not> isl (get_object_key a)" "\<not> isl (get_object_key b)" by auto
      with that the_key_eq [of a b] assms(4) sets show ?thesis
        by (auto simp: distinct_keys_def)
    qed
    have lo: "last_with_key old_list' k = last_with_key old_list k" for k
      by (rule last_with_key_set [OF sets(1) uniq_old])
    have ln: "last_with_key new_list' k = last_with_key new_list k" for k
      by (rule last_with_key_set [OF sets(2) uniq_new])
    have "set (set_union (map the_key old_list') (map the_key new_list'))
        = set (set_union (map the_key old_list) (map the_key new_list))"
      by (simp only: set_union_set set_map sets)
    then have "diff_set (extend_each (\<lambda>k. object_pair path k (last_with_key old_list' k)
              (last_with_key new_list' k))
            (set_union (map the_key old_list') (map the_key new_list')))
      = diff_set (extend_each (\<lambda>k. object_pair path k (last_with_key old_list k)
              (last_with_key new_list k))
            (set_union (map the_key old_list) (map the_key new_list)))"
      by (rule diff_set_extend_each_cong) (simp only: lo ln)
    then show ?thesis
      by (simp only: handle_object_nodes_set sets)
  qed
qed

subsection \<open>Ignored attributes\<close>

lemma erase_tag [simp]: "tag (erase_ignored n) = tag n"
  by (cases n) simp

lemma erase_etext [simp]: "etext (erase_ignored n) = etext n"
  by (cases n) simp

lemma erase_children [simp]: "children (erase_ignored n) = map erase_ignored (children n)"
  by (cases n) simp

lemma erase_attrib:
  "attrib (erase_ignored n) = filter (\<lambda>kv. fst kv \<notin> IGNORED_ATTRIBUTES) (attrib n)"
  by (cases n) simp

lemma map_of_filter_fst:
  "map_of (filter (\<lambda>kv. P (fst kv)) xs) k = (if P k then map_of xs k else None)"
  by (induction xs) auto

lemma erase_get: "get (erase_ignored n) a = (if a \<in> IGNORED_ATTRIBUTES then None else get n a)"
  by (simp add: get_def erase_attrib map_of_filter_fst [where P = "\<lambda>k. k \<notin> IGNORED_ATTRIBUTES"])

lemma erase_get_name [simp]: "get (erase_ignored n) ''name'' = get n ''name''"
  by (simp add: erase_get IGNORED_ATTRIBUTES_def)

lemma erase_get_type [simp]: "get (erase_ignored n) ''type'' = get n ''type''"
  by (simp add: erase_get IGNORED_ATTRIBUTES_def)

lemma find_map_option:
  "(\<And>x. x \<in> set xs \<Longrightarrow> P (f x) = Q x) \<Longrightarrow> find P (map f xs) = map_option f (find Q xs)"
  by (induction xs) auto

lemma erase_find_attribute:
  "find_attribute (erase_ignored n) nm = map_option erase_ignored (find_attribute n nm)"
  by (simp add: find_attribute_def find_map_option)

lemma erase_text_strip:
  "text_strip_if_present (map_option erase_ignored x) = text_strip_if_present x"
  by (cases x) (simp_all add: text_strip_if_present_def)

lemma erase_get_object_key [simp]: "get_object_key (erase_ignored n) = get_object_key n"
  by (simp add: get_object_key_def create_event_entity_mapping_key_def
      create_attribute_or_relationship_mapping_key_def create_mapping_model_key_def
      erase_find_attribute erase_text_strip Let_def cong: sum.case_cong)

lemma erase_text_or_empty [simp]: "text_or_empty (erase_ignored n) = text_or_empty n"
  by (simp add: text_or_empty_def)

lemma erase_format_element [simp]: "format_element (erase_ignored n) = format_element n"
  by (simp add: format_element_def format_event_entity_mapping_def
      erase_find_attribute erase_text_strip Let_def cong: sum.case_cong)

lemma erase_get_element_value [simp]: "get_element_value (erase_ignored n) = get_element_value n"
  by (simp add: get_element_value_def)

lemma erase_check_missing:
  "check_missing_nodes (map_option erase_ignored a) (map_option erase_ignored b) p
     = check_missing_nodes a b p"
  by (cases a; cases b) (simp_all add: Let_def cong: sum.case_cong)

lemma erase_compare_tags [simp]:
  "compare_tags (erase_ignored a) (erase_ignored b) p = compare_tags a b p"
  by (simp add: compare_tags_def)

lemma erase_compare_text [simp]:
  "compare_text (erase_ignored a) (erase_ignored b) p = compare_text a b p"
  by (simp add: compare_text_def)

lemma map_fst_filter: "map fst (filter (\<lambda>kv. P (fst kv)) xs) = filter P (map fst xs)"
  by (induction xs) auto

lemma erase_compare_attributes [simp]:
  "compare_attributes (erase_ignored a) (erase_ignored b) p = compare_attributes a b p"
proof -
  have keys: "filter (\<lambda>x. x \<notin> IGNORED_ATTRIBUTES)
        (set_union (map fst (attrib (erase_ignored a))) (map fst (attrib (erase_ignored b))))
      = filter (\<lambda>x. x \<notin> IGNORED_ATTRIBUTES) (set_union (map fst (attrib a)) (map fst (attrib b)))"
    by (simp add: set_union_def erase_attrib remdups_filter [symmetric]
        map_fst_filter [where P = "\<lambda>k. k \<notin> IGNORED_ATTRIBUTES"])
  show ?thesis
    unfolding compare_attributes_def Let_def keys
    by (rule arg_cong [where f = concat], rule map_cong) (simp_all add: erase_get)
qed

lemma erase_key_texts [simp]: "key_texts (map erase_ignored xs) = key_texts xs"
  by (simp add: key_texts_def)

lemma erase_handle_plist_keys [simp]:
  "handle_plist_keys (map erase_ignored ol) (map erase_ignored nl) p tg = handle_plist_keys ol nl p tg"
  by (simp add: handle_plist_keys_def)

lemma erase_filter_children:
  "filter_children (map erase_ignored cs) = map erase_ignored (filter_children cs)"
  by (simp add: filter_children_def filter_map comp_def)

lemma group_loop_keys:
  "map fst g' = map fst g \<Longrightarrow>
   map fst (group_loop g' (map erase_ignored xs)) = map fst (group_loop g xs)"
proof (induction xs arbitrary: g g')
  case Nil
  then show ?case by simp
next
  case (Cons a xs)
  show ?case
    by (simp, rule Cons.IH) (simp add: update_keys Cons.prems)
qed

lemma erase_group_keys:
  "map fst (group_by_tag (map erase_ignored xs)) = map fst (group_by_tag xs)"
  by (simp add: group_by_tag_def group_loop_keys)

lemma erase_group_lookup:
  "get_or_empty (group_by_tag (map erase_ignored xs)) t
     = map erase_ignored (get_or_empty (group_by_tag xs) t)"
  by (simp add: group_by_tag_lookup filter_map comp_def)

lemma update_map_values:
  "AList.update k (f v) (map (\<lambda>(k, v). (k, f v)) d) = map (\<lambda>(k, v). (k, f v)) (AList.update k v d)"
  by (induction d) auto

lemma erase_object_dict_loop:
  "object_dict_loop (map (\<lambda>(k, c). (k, erase_ignored c)) d) (map erase_ignored xs)
     = map_sum id (map (\<lambda>(k, c). (k, erase_ignored c))) (object_dict_loop d xs)"
proof (induction xs arbitrary: d)
  case Nil
  then show ?case by simp
next
  case (Cons a xs)
  show ?case
  proof (cases "get_object_key a")
    case (Inl e)
    then show ?thesis by simp
  next
    case (Inr k)
    then show ?thesis
      using Cons.IH [of "AList.update k a d"] by (simp add: update_map_values)
  qed
qed

lemma erase_object_dict:
  "object_dict (map erase_ignored xs)
     = map_sum id (map (\<lambda>(k, c). (k, erase_ignored c))) (object_dict xs)"
  using erase_object_dict_loop [of "[]" xs] by (simp add: object_dict_def)

lemma map_fst_map_values: "map fst (map (\<lambda>(k, v). (k, f v)) d) = map fst d"
  by (induction d) auto

lemma map_of_map_values:
  "map_of (map (\<lambda>(k, v). (k, f v)) d) k = map_option f (map_of d k)"
  by (simp add: map_of_map)

lemma erase_step_objects:
  assumes rec: "\<And>c b sp. c \<in> set ol \<Longrightarrow>
      diff_elements (Some (erase_ignored c)) (Some (erase_ignored b)) sp
        = diff_elements (Some c) (Some b) sp"
  shows "handle_object_nodes (map erase_ignored ol) (map erase_ignored nl) p
           = handle_object_nodes ol nl p"
proof (cases "object_dict ol")
  case (Inl e)
  then show ?thesis
    by (simp add: handle_object_nodes.simps [of _ _ p] erase_object_dict)
next
  case old: (Inr d_old)
  show ?thesis
  proof (cases "object_dict nl")
    case (Inl e)
    with old show ?thesis
      by (simp add: handle_object_nodes.simps [of _ _ p] erase_object_dict)
  next
    case new: (Inr d_new)
    have body: "object_pair p k (map_option erase_ignored (map_of d_old k))
                   (map_option erase_ignored (map_of d_new k))
                = object_pair p k (map_of d_old k) (map_of d_new k)" for k
    proof (cases "map_of d_old k")
      case None
      then show ?thesis
        by (cases "map_of d_new k") (simp_all add: object_pair_def Let_def cong: sum.case_cong)
    next
      case (Some c)
      then have "c \<in> set ol" using old by (auto dest: object_dict_mem)
      with Some show ?thesis
        by (cases "map_of d_new k") (simp_all add: object_pair_def rec Let_def cong: sum.case_cong)
    qed
    have l: "handle_object_nodes (map erase_ignored ol) (map erase_ignored nl) p
        = extend_each (\<lambda>k. object_pair p k (map_option erase_ignored (map_of d_old k))
                   (map_option erase_ignored (map_of d_new k)))
            (set_union (map fst d_old) (map fst d_new))"
      unfolding object_pair_def
      by (simp only: handle_object_nodes.simps [of _ _ p] erase_object_dict old new
          map_sum.simps id_apply sum.case map_fst_map_values map_of_map_values)
    have r: "handle_object_nodes ol nl p
        = extend_each (\<lambda>k. object_pair p k (map_of d_old k) (map_of d_new k))
            (set_union (map fst d_old) (map fst d_new))"
      unfolding object_pair_def
      by (simp only: handle_object_nodes.simps [of _ _ p] old new sum.case)
    show ?thesis
      unfolding l r by (simp only: body)
  qed
qed

lemma erase_step_default:
  assumes rec: "\<And>c b sp. c \<in> set ol \<Longrightarrow>
      diff_elements (Some (erase_ignored c)) (Some (erase_ignored b)) sp
        = diff_elements (Some c) (Some b) sp"
    and none: "\<And>b sp. diff_elements None (map_option erase_ignored b) sp = diff_elements None b sp"
    and none': "\<And>c sp. diff_elements (Some (erase_ignored c)) None sp = diff_elements (Some c) None sp"
  shows "handle_default_children (map erase_ignored ol) (map erase_ignored nl) p tg
           = handle_default_children ol nl p tg"
  unfolding handle_default_children.simps [of _ _ p tg] Let_def length_map
proof (rule extend_each_cong [OF refl])
  fix i
  let ?sp = "if max (length ol) (length nl) = 1 then p @ ''.'' @ tg
             else p @ ''.'' @ tg @ ''['' @ str_nat i @ '']''"
  show "diff_elements (if i < length ol then Some (map erase_ignored ol ! i) else None)
          (if i < length nl then Some (map erase_ignored nl ! i) else None) ?sp
      = diff_elements (if i < length ol then Some (ol ! i) else None)
          (if i < length nl then Some (nl ! i) else None) ?sp"
  proof (cases "i < length ol")
    case True
    then have "ol ! i \<in> set ol" by simp
    from rec [OF this] none' [of "ol ! i"] True show ?thesis by simp
  next
    case False
    with none [of "if i < length nl then Some (nl ! i) else None"] show ?thesis
      by (cases "i < length nl") simp_all
  qed
qed

lemma diff_elements_absent:
  "a = None \<or> b = None \<Longrightarrow> diff_elements a b p = map_sum id fst (check_missing_nodes a b p)"
  by (cases a; cases b) (auto simp: diff_elements.simps [of _ _ p] Let_def split: sum.splits)

lemma erase_diff_absent:
  "a = None \<or> b = None \<Longrightarrow>
   diff_elements (map_option erase_ignored a) (map_option erase_ignored b) p = diff_elements a b p"
  using diff_elements_absent [of a b p]
    diff_elements_absent [of "map_option erase_ignored a" "map_option erase_ignored b" p]
  by (auto simp: erase_check_missing)

lemma group_subset: "set (get_or_empty (group_by_tag (filter_children cs)) t) \<subseteq> set cs"
  by (auto simp: group_by_tag_lookup filter_children_def)

lemma erase_step_children:
  assumes rec: "\<And>c b sp. c \<in> set cs \<Longrightarrow>
      diff_elements (Some (erase_ignored c)) (Some (erase_ignored b)) sp
        = diff_elements (Some c) (Some b) sp"
  shows "diff_children (map erase_ignored cs) (map erase_ignored ns) p = diff_children cs ns p"
  unfolding diff_children.simps [of _ _ p] Let_def erase_filter_children erase_group_keys
    erase_group_lookup
proof (rule extend_each_cong [OF refl])
  fix tg
  let ?ol = "get_or_empty (group_by_tag (filter_children cs)) tg"
  let ?nl = "get_or_empty (group_by_tag (filter_children ns)) tg"
  have rec': "diff_elements (Some (erase_ignored c)) (Some (erase_ignored b)) sp
        = diff_elements (Some c) (Some b) sp" if "c \<in> set ?ol" for c b sp
    using that group_subset [of cs tg] by (intro rec) auto
  have obj: "handle_object_nodes (map erase_ignored ?ol) (map erase_ignored ?nl) p
      = handle_object_nodes ?ol ?nl p"
    by (rule erase_step_objects) (rule rec')
  have dflt: "handle_default_children (map erase_ignored ?ol) (map erase_ignored ?nl) p tg
      = handle_default_children ?ol ?nl p tg"
  proof (rule erase_step_default)
    fix c b sp assume "c \<in> set ?ol"
    then show "diff_elements (Some (erase_ignored c)) (Some (erase_ignored b)) sp
        = diff_elements (Some c) (Some b) sp" by (rule rec')
  next
    fix b sp show "diff_elements None (map_option erase_ignored b) sp = diff_elements None b sp"
      using erase_diff_absent [of None b sp] by simp
  next
    fix c sp show "diff_elements (Some (erase_ignored c)) None sp = diff_elements (Some c) None sp"
      using erase_diff_absent [of "Some c" None sp] by simp
  qed
  show "(if tg = ''key'' \<and> str_contains ''.plist.dict'' p
         then handle_plist_keys (map erase_ignored ?ol) (map erase_ignored ?nl) p tg
         else if tg = ''object''
              then handle_object_nodes (map erase_ignored ?ol) (map erase_ignored ?nl) p
              else handle_default_children (map erase_ignored ?ol) (map erase_ignored ?nl) p tg)
      = (if tg = ''key'' \<and> str_contains ''.plist.dict'' p
         then handle_plist_keys ?ol ?nl p tg
         else if tg = ''object'' then handle_object_nodes ?ol ?nl p
              else handle_default_children ?ol ?nl p tg)"
    by (simp only: obj dflt erase_handle_plist_keys)
qed

lemma erase_diff_elements:
  "diff_elements (Some (erase_ignored a)) (Some (erase_ignored b)) p
     = diff_elements (Some a) (Some b) p"
proof (induction a arbitrary: b p)
  case (Node t as x cs)
  let ?n = "Node t as x cs"
  have "diff_children (map erase_ignored cs) (map erase_ignored (children b)) p
      = diff_children cs (children b) p"
    by (rule erase_step_children) (rule Node.IH)
  then have ch: "diff_children (map erase_ignored (children ?n)) (map erase_ignored (children b)) p
      = diff_children (children ?n) (children b) p"
    by (simp only: node.sel)
  show ?case
    by (simp only: diff_elements_both erase_tag erase_children erase_compare_tags
        erase_compare_text erase_compare_attributes ch)
qed

text \<open>Noninterference: the comparison depends on the two trees only up to their ignored
  attributes.\<close>

lemma diff_elements_noninterference:
  assumes "erase_ignored a' = erase_ignored a" and "erase_ignored b' = erase_ignored b"
  shows "diff_elements (Some a') (Some b') p = diff_elements (Some a) (Some b) p"
  using erase_diff_elements [of a b p] erase_diff_elements [of a' b' p] assms by simp

lemma differs_in_attr_erase:
  "differs_in_attr a n n' \<Longrightarrow> a \<in> IGNORED_ATTRIBUTES \<Longrightarrow> erase_ignored n' = erase_ignored n"
  by (induction rule: differs_in_attr.induct) simp_all

text \<open>
  Claim C8 (ignored-attribute noninterference). Let \<open>T'\<close> differ from \<open>T\<close> only in the value of
  an ignored attribute on one node. Then comparing \<open>T\<close> against \<open>T'\<close> gives what comparing \<open>T\<close>
  against itself gives: the empty list of records, so no Mismatch; the comparison can raise
  only where key derivation fails in \<open>T\<close> (claim C2), and then it produces no record either.
  Moreover \<open>T\<close> and \<open>T'\<close> are interchangeable on either side of a comparison with any third
  tree \<open>B\<close>.
\<close>

theorem ignored_attribute_noninterference:
  assumes "a \<in> IGNORED_ATTRIBUTES" and "differs_in_attr a T T'"
  shows "diff_elements (Some T) (Some T') p = diff_elements (Some T) (Some T) p
       \<and> (diff_elements (Some T) (Some T') p = Inr []
            \<or> (isl (diff_elements (Some T) (Some T') p) \<and> \<not> keys_ok T))
       \<and> diff_elements (Some T') (Some B) p = diff_elements (Some T) (Some B) p
       \<and> diff_elements (Some B) (Some T') p = diff_elements (Some B) (Some T) p"
proof -
  from assms have e: "erase_ignored T' = erase_ignored T"
    by (auto dest: differs_in_attr_erase)
  have same: "diff_elements (Some T) (Some T') p = diff_elements (Some T) (Some T) p"
    by (rule diff_elements_noninterference [OF refl e])
  moreover have "diff_elements (Some T) (Some T) p = Inr []
      \<or> (isl (diff_elements (Some T) (Some T) p) \<and> \<not> keys_ok T)"
    using diff_self_quiet [of T p] by (simp add: quiet_def)
  moreover have "diff_elements (Some T') (Some B) p = diff_elements (Some T) (Some B) p"
    by (rule diff_elements_noninterference [OF e refl])
  moreover have "diff_elements (Some B) (Some T') p = diff_elements (Some B) (Some T) p"
    by (rule diff_elements_noninterference [OF refl e])
  ultimately show ?thesis by simp
qed

text \<open>The \<^verbatim>\<open>id\<close> of an object below the root changes from \<^verbatim>\<open>z102\<close> to \<^verbatim>\<open>z999\<close>.\<close>

theorem ignored_attribute_noninterference_witness:
  "''id'' \<in> IGNORED_ATTRIBUTES
   \<and> differs_in_attr ''id''
       (Node ''database'' [] None
          [Node ''object'' [(''type'', ''XDDEVMAPPINGMODEL''), (''id'', ''z102'')] None []])
       (Node ''database'' [] None
          [Node ''object'' [(''type'', ''XDDEVMAPPINGMODEL''), (''id'', ''z999'')] None []])
   \<and> diff_elements
       (Some (Node ''database'' [] None
          [Node ''object'' [(''type'', ''XDDEVMAPPINGMODEL''), (''id'', ''z102'')] None []]))
       (Some (Node ''database'' [] None
          [Node ''object'' [(''type'', ''XDDEVMAPPINGMODEL''), (''id'', ''z999'')] None []]))
       ''database'' = Inr []"
proof -
  let ?T = "Node ''database'' [] None
          [Node ''object'' [(''type'', ''XDDEVMAPPINGMODEL''), (''id'', ''z102'')] None []]"
  let ?T' = "Node ''database'' [] None
          [Node ''object'' [(''type'', ''XDDEVMAPPINGMODEL''), (''id'', ''z999'')] None []]"
  have h1: "''id'' \<in> IGNORED_ATTRIBUTES"
    by (simp add: IGNORED_ATTRIBUTES_def)
  have "differs_in_attr ''id''
      (Node ''object'' ([(''type'', ''XDDEVMAPPINGMODEL'')] @ (''id'', ''z102'') # []) None [])
      (Node ''object'' ([(''type'', ''XDDEVMAPPINGMODEL'')] @ (''id'', ''z999'') # []) None [])"
    by (rule differs_in_attr.here)
  then have "differs_in_attr ''id''
      (Node ''database'' [] None ([] @
          Node ''object'' ([(''type'', ''XDDEVMAPPINGMODEL'')] @ (''id'', ''z102'') # []) None [] # []))
      (Node ''database'' [] None ([] @
          Node ''object'' ([(''type'', ''XDDEVMAPPINGMODEL'')] @ (''id'', ''z999'') # []) None [] # []))"
    by (rule differs_in_attr.below)
  then have h2: "differs_in_attr ''id'' ?T ?T'"
    by simp
  have ok: "keys_ok ?T"
    by code_simp
  from ignored_attribute_noninterference [OF h1 h2, of "''database''" ?T] ok
  have "diff_elements (Some ?T) (Some ?T') ''database'' = Inr []"
    by blast
  with h1 h2 show ?thesis by blast
qed

subsection \<open>Symmetry\<close>

lemma swap_consts [simp]:
  "TYPE_MISSING \<noteq> TYPE_EXTRA" "TYPE_MISMATCH \<noteq> TYPE_MISSING" "TYPE_MISMATCH \<noteq> TYPE_EXTRA"
  "CATEGORY_MISSING \<noteq> CATEGORY_EXTRA" "CATEGORY_MISMATCH \<noteq> CATEGORY_MISSING"
  "CATEGORY_MISMATCH \<noteq> CATEGORY_EXTRA"
  by (simp_all add: TYPE_MISSING_def TYPE_EXTRA_def TYPE_MISMATCH_def CATEGORY_MISSING_def
      CATEGORY_EXTRA_def CATEGORY_MISMATCH_def)

lemma swap_mismatch:
  "swap_diff (TYPE_MISMATCH, (info CATEGORY_MISMATCH p)\<lparr>d_old := Some a, d_new := Some b, d_type := Some t\<rparr>)
     = (TYPE_MISMATCH, (info CATEGORY_MISMATCH p)\<lparr>d_old := Some b, d_new := Some a, d_type := Some t\<rparr>)"
  by (simp add: swap_diff_def info_def)

lemma swap_missing:
  "swap_diff (TYPE_MISSING, (info CATEGORY_MISSING p)\<lparr>d_old := Some a\<rparr>)
     = (TYPE_EXTRA, (info CATEGORY_EXTRA p)\<lparr>d_new := Some a\<rparr>)"
  "swap_diff (TYPE_MISSING, (info CATEGORY_MISSING p)\<lparr>d_old := Some a, d_value := Some v\<rparr>)
     = (TYPE_EXTRA, (info CATEGORY_EXTRA p)\<lparr>d_new := Some a, d_value := Some v\<rparr>)"
  by (simp_all add: swap_diff_def info_def)

lemma swap_extra:
  "swap_diff (TYPE_EXTRA, (info CATEGORY_EXTRA p)\<lparr>d_new := Some a\<rparr>)
     = (TYPE_MISSING, (info CATEGORY_MISSING p)\<lparr>d_old := Some a\<rparr>)"
  "swap_diff (TYPE_EXTRA, (info CATEGORY_EXTRA p)\<lparr>d_new := Some a, d_value := Some v\<rparr>)
     = (TYPE_MISSING, (info CATEGORY_MISSING p)\<lparr>d_old := Some a, d_value := Some v\<rparr>)"
  by (simp_all add: swap_diff_def info_def)

lemma swap_check_missing:
  "check_missing_nodes b a p
     = map_sum id (\<lambda>(ds, bp). (map swap_diff ds, bp)) (check_missing_nodes a b p)"
proof (cases a; cases b)
  fix n assume "a = None" "b = Some n"
  then show ?thesis
    by (cases "format_element n") (simp_all add: Let_def swap_missing swap_extra)
next
  fix n assume "a = Some n" "b = None"
  then show ?thesis
    by (cases "format_element n") (simp_all add: Let_def swap_missing swap_extra)
qed simp_all

lemma swap_compare_tags: "compare_tags b a p = map swap_diff (compare_tags a b p)"
  by (auto simp: compare_tags_def swap_mismatch)

lemma swap_compare_text:
  "is_mappingnumber a = is_mappingnumber b \<Longrightarrow> tag a = tag b \<Longrightarrow>
   compare_text b a p = map swap_diff (compare_text a b p)"
  by (auto simp: compare_text_def swap_mismatch is_mappingnumber_def Let_def)

lemma compare_attributes_alt:
  "compare_attributes a b p =
     concat (map (attribute_diff a b p)
       (filter (\<lambda>x. x \<notin> IGNORED_ATTRIBUTES) (set_union (map fst (attrib a)) (map fst (attrib b)))))"
  unfolding compare_attributes_def attribute_diff_def [abs_def] Let_def by (rule refl)

lemma swap_attribute_diff: "attribute_diff b a p attr = map swap_diff (attribute_diff a b p attr)"
  by (auto simp: attribute_diff_def swap_mismatch Let_def)

lemma swap_compare_attributes:
  "set (compare_attributes b a p) = swap_diff ` set (compare_attributes a b p)"
proof -
  have "set (set_union (map fst (attrib b)) (map fst (attrib a)))
      = set (set_union (map fst (attrib a)) (map fst (attrib b)))"
    by (auto simp: set_union_def)
  then have "set (filter (\<lambda>x. x \<notin> IGNORED_ATTRIBUTES) (set_union (map fst (attrib b)) (map fst (attrib a))))
      = set (filter (\<lambda>x. x \<notin> IGNORED_ATTRIBUTES) (set_union (map fst (attrib a)) (map fst (attrib b))))"
    by simp
  then show ?thesis
    unfolding compare_attributes_alt
    by (simp only: set_concat set_map image_image swap_attribute_diff [of b a p] image_UN)
qed

lemma map_diffs_simps [simp]:
  "map_diffs h (Inl e) = Inl e" "map_diffs h (Inr ds) = Inr (map h ds)"
  by (simp_all add: map_diffs_def)

lemma swap_missing_key_diff:
  "extra_key_diff keys p tg k = map_diffs swap_diff (missing_key_diff keys p tg k)"
  by (cases "list_index keys k")
     (simp_all add: extra_key_diff_def missing_key_diff_def Let_def swap_missing)

lemma swap_extra_key_diff:
  "missing_key_diff keys p tg k = map_diffs swap_diff (extra_key_diff keys p tg k)"
  by (cases "list_index keys k")
     (simp_all add: extra_key_diff_def missing_key_diff_def Let_def swap_extra)

lemma extend_each_map:
  "(\<And>x. x \<in> set xs \<Longrightarrow> g x = map_diffs h (f x)) \<Longrightarrow>
   extend_each g xs = map_diffs h (extend_each f xs)"
proof (induction xs)
  case Nil
  then show ?case by simp
next
  case (Cons a xs)
  then have a: "g a = map_diffs h (f a)"
    and rest: "extend_each g xs = map_diffs h (extend_each f xs)" by auto
  show ?case
    by (cases "f a"; cases "extend_each f xs") (simp_all add: a rest)
qed

lemma handle_plist_keys_loops:
  assumes "set (key_texts ol) \<noteq> set (key_texts nl)"
    and "missing = filter (\<lambda>k. k \<notin> set (key_texts nl)) (key_texts ol)"
    and "extra = filter (\<lambda>k. k \<notin> set (key_texts ol)) (key_texts nl)"
    and "\<not> (length missing = 1 \<and> length extra = 1)"
    and "extend_each (missing_key_diff (key_texts ol) p tg) missing = Inr ms"
    and "extend_each (extra_key_diff (key_texts nl) p tg) extra = Inr es"
  shows "handle_plist_keys ol nl p tg = Inr (ms @ es)"
  using assms(5,6) unfolding missing_key_diff_def [abs_def] extra_key_diff_def [abs_def]
  by (rule handle_plist_keys_else [OF assms(1-4)])

lemma key_diff_loops_ok:
  assumes "set missing \<subseteq> set keys"
  shows "\<exists>ms. extend_each (missing_key_diff keys p tg) missing = Inr ms \<and> length ms = length missing"
    and "\<exists>es. extend_each (extra_key_diff keys p tg) missing = Inr es \<and> length es = length missing"
proof -
  have idx: "\<exists>i. list_index keys k = Inr i" if "k \<in> set missing" for k
    using that assms list_index_mem [of k keys] by auto
  have "\<exists>d. missing_key_diff keys p tg k = Inr [d]" if "k \<in> set missing" for k
  proof -
    from idx [OF that] obtain i where "list_index keys k = Inr i" by blast
    then show ?thesis by (simp add: missing_key_diff_def Let_def)
  qed
  then show "\<exists>ms. extend_each (missing_key_diff keys p tg) missing = Inr ms \<and> length ms = length missing"
    by (rule extend_each_singletons)
  have "\<exists>d. extra_key_diff keys p tg k = Inr [d]" if "k \<in> set missing" for k
  proof -
    from idx [OF that] obtain i where "list_index keys k = Inr i" by blast
    then show ?thesis by (simp add: extra_key_diff_def Let_def)
  qed
  then show "\<exists>es. extend_each (extra_key_diff keys p tg) missing = Inr es \<and> length es = length missing"
    by (rule extend_each_singletons)
qed

lemma swapped_Some: "swapped (Some s) = Some (swap_diff ` s)"
  by (simp add: swapped_def)

lemma swapped_None: "swapped None = None"
  by (simp add: swapped_def)

lemma diff_set_Inr: "diff_set (Inr ds) = Some (set ds)"
  by (simp add: diff_set_def)

lemma diff_set_Inl: "diff_set (Inl e) = None"
  by (simp add: diff_set_def)

lemma swap_handle_plist_keys:
  assumes "renames_aligned ol nl"
  shows "diff_set (handle_plist_keys nl ol p tg) = swapped (diff_set (handle_plist_keys ol nl p tg))"
proof (cases "set (key_texts ol) = set (key_texts nl)")
  case True
  then have "handle_plist_keys ol nl p tg = Inr []" "handle_plist_keys nl ol p tg = Inr []"
    by (simp_all add: handle_plist_keys_same)
  then show ?thesis by (simp add: diff_set_Inr swapped_Some)
next
  case differ: False
  then have differ': "set (key_texts nl) \<noteq> set (key_texts ol)" by simp
  define missing where "missing = filter (\<lambda>k. k \<notin> set (key_texts nl)) (key_texts ol)"
  define extra where "extra = filter (\<lambda>k. k \<notin> set (key_texts ol)) (key_texts nl)"
  have sub: "set missing \<subseteq> set (key_texts ol)" "set extra \<subseteq> set (key_texts nl)"
    by (auto simp: missing_def extra_def)
  show ?thesis
  proof (cases "length missing = 1 \<and> length extra = 1")
    case True
    then obtain m n where mn: "missing = [m]" "extra = [n]"
      by (auto simp: length_Suc_conv)
    with sub have "m \<in> set (key_texts ol)" "n \<in> set (key_texts nl)" by auto
    then obtain i j where ij: "list_index (key_texts ol) m = Inr i" "list_index (key_texts nl) n = Inr j"
      using list_index_mem [of m "key_texts ol"] list_index_mem [of n "key_texts nl"] by auto
    from assms True mn have "list_index (key_texts ol) m = list_index (key_texts nl) n"
      by (simp add: renames_aligned_def Let_def missing_def [symmetric] extra_def [symmetric])
    with ij have "i = j" by simp
    have ab: "handle_plist_keys ol nl p tg =
       Inr [(TYPE_MISMATCH,
           \<lparr>d_category = CATEGORY_MISMATCH,
            d_path = p @ ''.'' @ tg @ ''['' @ str_nat i @ '']'' @ '' text'',
            d_old = Some (PyStr m), d_new = Some (PyStr n),
            d_type = Some ''text'', d_value = None\<rparr>)]"
      by (rule handle_plist_keys_one_changed [OF differ _ _ ij(1)])
         (simp_all add: mn [symmetric] missing_def extra_def)
    have ba: "handle_plist_keys nl ol p tg =
       Inr [(TYPE_MISMATCH,
           \<lparr>d_category = CATEGORY_MISMATCH,
            d_path = p @ ''.'' @ tg @ ''['' @ str_nat j @ '']'' @ '' text'',
            d_old = Some (PyStr n), d_new = Some (PyStr m),
            d_type = Some ''text'', d_value = None\<rparr>)]"
      by (rule handle_plist_keys_one_changed [OF differ' _ _ ij(2)])
         (simp_all add: mn [symmetric] missing_def extra_def)
    show ?thesis
      unfolding ab ba \<open>i = j\<close>
      by (simp add: diff_set_Inr swapped_Some swap_diff_def)
  next
    case other: False
    then have other': "\<not> (length extra = 1 \<and> length missing = 1)" by blast
    from key_diff_loops_ok [OF sub(1), of p tg]
    obtain ms where ms: "extend_each (missing_key_diff (key_texts ol) p tg) missing = Inr ms"
      by blast
    from key_diff_loops_ok [OF sub(2), of p tg]
    obtain es where es: "extend_each (extra_key_diff (key_texts nl) p tg) extra = Inr es"
      by blast
    have ab: "handle_plist_keys ol nl p tg = Inr (ms @ es)"
      by (rule handle_plist_keys_loops [OF differ missing_def extra_def other ms es])
    have "extend_each (missing_key_diff (key_texts nl) p tg) extra
        = map_diffs swap_diff (extend_each (extra_key_diff (key_texts nl) p tg) extra)"
      by (rule extend_each_map) (rule swap_extra_key_diff)
    with es have ms': "extend_each (missing_key_diff (key_texts nl) p tg) extra = Inr (map swap_diff es)"
      by simp
    have "extend_each (extra_key_diff (key_texts ol) p tg) missing
        = map_diffs swap_diff (extend_each (missing_key_diff (key_texts ol) p tg) missing)"
      by (rule extend_each_map) (rule swap_missing_key_diff)
    with ms have es': "extend_each (extra_key_diff (key_texts ol) p tg) missing = Inr (map swap_diff ms)"
      by simp
    have ba: "handle_plist_keys nl ol p tg = Inr (map swap_diff es @ map swap_diff ms)"
      by (rule handle_plist_keys_loops [OF differ' extra_def missing_def other' ms' es'])
    show ?thesis
      unfolding ab ba by (auto simp: diff_set_Inr swapped_Some)
  qed
qed

lemma diff_set_None_iff: "diff_set r = None \<longleftrightarrow> isl r"
  by (cases r) (simp_all add: diff_set_def)

lemma diff_set_Some_projr: "diff_set r = Some s \<Longrightarrow> set (projr r) = s"
  by (cases r) (auto simp: diff_set_def)

lemma swapped_None_iff: "swapped r = None \<longleftrightarrow> r = None"
  by (simp add: swapped_def)

lemma swap_extend_each:
  assumes sets: "set ys = set xs"
    and body: "\<And>x. x \<in> set xs \<Longrightarrow> diff_set (g x) = swapped (diff_set (f x))"
  shows "diff_set (extend_each g ys) = swapped (diff_set (extend_each f xs))"
proof -
  have isl_eq: "isl (g x) = isl (f x)" if "x \<in> set xs" for x
    using body [OF that] by (metis diff_set_None_iff swapped_None_iff)
  have set_eq: "set (projr (g x)) = swap_diff ` set (projr (f x))"
    if "x \<in> set xs" "\<not> isl (f x)" for x
  proof -
    from that(2) obtain ds where ds: "f x = Inr ds" by (cases "f x") auto
    with body [OF that(1)] have "diff_set (g x) = Some (swap_diff ` set ds)"
      by (simp add: diff_set_Inr swapped_Some)
    from diff_set_Some_projr [OF this] ds show ?thesis by simp
  qed
  show ?thesis
  proof (cases "\<exists>x\<in>set xs. isl (f x)")
    case True
    with isl_eq have "\<exists>x\<in>set ys. isl (g x)" using sets by auto
    with True show ?thesis
      by (simp add: diff_set_extend_each swapped_None)
  next
    case False
    with isl_eq have no: "\<not> (\<exists>x\<in>set ys. isl (g x))" using sets by auto
    have "(\<Union>x\<in>set xs. set (projr (g x))) = (\<Union>x\<in>set xs. swap_diff ` set (projr (f x)))"
      using False set_eq by auto
    then have "(\<Union>x\<in>set ys. set (projr (g x))) = swap_diff ` (\<Union>x\<in>set xs. set (projr (f x)))"
      by (simp add: sets image_UN)
    with False no show ?thesis
      by (simp add: diff_set_extend_each swapped_Some)
  qed
qed

lemma swap_diff_absent:
  assumes "a = None \<or> b = None"
  shows "diff_set (diff_elements b a p) = swapped (diff_set (diff_elements a b p))"
proof -
  from assms have ab: "diff_elements a b p = map_sum id fst (check_missing_nodes a b p)"
    by (rule diff_elements_absent)
  from assms have "b = None \<or> a = None" by blast
  then have ba: "diff_elements b a p = map_sum id fst (check_missing_nodes b a p)"
    by (rule diff_elements_absent)
  show ?thesis
    unfolding ab ba swap_check_missing [of b a p]
    by (cases "check_missing_nodes a b p")
       (auto simp: diff_set_Inl diff_set_Inr swapped_None swapped_Some)
qed

lemma swap_object_pair:
  assumes rec: "\<And>a b sp. co = Some a \<Longrightarrow> cn = Some b \<Longrightarrow>
      diff_set (diff_elements (Some b) (Some a) sp) = swapped (diff_set (diff_elements (Some a) (Some b) sp))"
  shows "diff_set (object_pair p k cn co) = swapped (diff_set (object_pair p k co cn))"
proof (cases "format_object_key k")
  case (Inl e)
  then show ?thesis by (simp add: object_pair_def diff_set_Inl swapped_None)
next
  case (Inr desc)
  show ?thesis
  proof (cases co)
    case None
    show ?thesis
    proof (cases cn)
      case n: None
      with None Inr show ?thesis by (simp add: object_pair_def diff_set_Inl swapped_None)
    next
      case (Some b)
      with None Inr show ?thesis
        by (cases "format_element b")
           (simp_all add: object_pair_def diff_set_Inl diff_set_Inr swapped_None swapped_Some
             swap_extra)
    qed
  next
    case a: (Some a)
    show ?thesis
    proof (cases cn)
      case None
      with a Inr show ?thesis
        by (cases "format_element a")
           (simp_all add: object_pair_def diff_set_Inl diff_set_Inr swapped_None swapped_Some
             swap_missing)
    next
      case (Some b)
      with a Inr rec [OF a Some] show ?thesis
        by (simp add: object_pair_def)
    qed
  qed
qed

lemma swap_step_objects:
  assumes rec: "\<And>a b sp. a \<in> set ol \<Longrightarrow> b \<in> set nl \<Longrightarrow>
      diff_set (diff_elements (Some b) (Some a) sp) = swapped (diff_set (diff_elements (Some a) (Some b) sp))"
  shows "diff_set (handle_object_nodes nl ol p) = swapped (diff_set (handle_object_nodes ol nl p))"
proof (cases "\<exists>c\<in>set ol \<union> set nl. isl (get_object_key c)")
  case True
  then have "\<exists>c\<in>set nl \<union> set ol. isl (get_object_key c)" by blast
  with True show ?thesis
    by (simp add: handle_object_nodes_set swapped_None)
next
  case False
  then have False': "\<not> (\<exists>c\<in>set nl \<union> set ol. isl (get_object_key c))" by blast
  have "diff_set (extend_each (\<lambda>k. object_pair p k (last_with_key nl k) (last_with_key ol k))
            (set_union (map the_key nl) (map the_key ol)))
      = swapped (diff_set (extend_each (\<lambda>k. object_pair p k (last_with_key ol k) (last_with_key nl k))
            (set_union (map the_key ol) (map the_key nl))))"
  proof (rule swap_extend_each)
    show "set (set_union (map the_key nl) (map the_key ol))
        = set (set_union (map the_key ol) (map the_key nl))"
      by (auto simp: set_union_set)
  next
    fix k
    show "diff_set (object_pair p k (last_with_key nl k) (last_with_key ol k))
        = swapped (diff_set (object_pair p k (last_with_key ol k) (last_with_key nl k)))"
    proof (rule swap_object_pair)
      fix a b sp assume "last_with_key ol k = Some a" "last_with_key nl k = Some b"
      then have "a \<in> set ol" "b \<in> set nl" by (auto dest: last_with_key_Some)
      then show "diff_set (diff_elements (Some b) (Some a) sp)
          = swapped (diff_set (diff_elements (Some a) (Some b) sp))" by (rule rec)
    qed
  qed
  then show ?thesis
    by (simp only: handle_object_nodes_set False False' if_False)
qed

lemma swap_step_default:
  assumes rec: "\<And>a b sp. a \<in> set ol \<Longrightarrow> b \<in> set nl \<Longrightarrow>
      diff_set (diff_elements (Some b) (Some a) sp) = swapped (diff_set (diff_elements (Some a) (Some b) sp))"
  shows "diff_set (handle_default_children nl ol p tg)
           = swapped (diff_set (handle_default_children ol nl p tg))"
  unfolding handle_default_children.simps [of _ _ p tg] Let_def
proof (rule swap_extend_each)
  show "set [0..<max (length nl) (length ol)] = set [0..<max (length ol) (length nl)]"
    by (simp add: max.commute)
next
  fix i
  let ?sp = "if max (length ol) (length nl) = 1 then p @ ''.'' @ tg
             else p @ ''.'' @ tg @ ''['' @ str_nat i @ '']''"
  have sp: "(if max (length nl) (length ol) = 1 then p @ ''.'' @ tg
             else p @ ''.'' @ tg @ ''['' @ str_nat i @ '']'') = ?sp"
    by (simp add: max.commute)
  have "diff_set (diff_elements (if i < length nl then Some (nl ! i) else None)
          (if i < length ol then Some (ol ! i) else None) ?sp)
      = swapped (diff_set (diff_elements (if i < length ol then Some (ol ! i) else None)
          (if i < length nl then Some (nl ! i) else None) ?sp))"
  proof (cases "i < length ol \<and> i < length nl")
    case True
    then have "ol ! i \<in> set ol" "nl ! i \<in> set nl" by simp_all
    from rec [OF this] True show ?thesis by simp
  next
    case False
    then show ?thesis by (intro swap_diff_absent) auto
  qed
  then show "diff_set (diff_elements (if i < length nl then Some (nl ! i) else None)
          (if i < length ol then Some (ol ! i) else None)
          (if max (length nl) (length ol) = 1 then p @ ''.'' @ tg
           else p @ ''.'' @ tg @ ''['' @ str_nat i @ '']''))
      = swapped (diff_set (diff_elements (if i < length ol then Some (ol ! i) else None)
          (if i < length nl then Some (nl ! i) else None) ?sp))"
    by (simp only: sp)
qed

lemma filter_children_not_mappingnumber:
  "c \<in> set (filter_children cs) \<Longrightarrow> \<not> is_mappingnumber c"
  by (auto simp: filter_children_def is_mappingnumber_def)

lemma filter_children_keys:
  "filter (\<lambda>e. tag e = ''key'') (filter_children cs) = filter (\<lambda>e. tag e = ''key'') cs"
  by (auto simp: filter_children_def intro: filter_cong)

lemma group_keys_set: "set (map fst (group_loop g xs)) = fst ` set g \<union> tag ` set xs"
  by (induction xs arbitrary: g) (auto simp: dom_update)

lemma swap_step_children:
  assumes rec: "\<And>a b sp. a \<in> set cs \<Longrightarrow> b \<in> set ns \<Longrightarrow>
        \<not> is_mappingnumber a \<Longrightarrow> \<not> is_mappingnumber b \<Longrightarrow>
        diff_set (diff_elements (Some b) (Some a) sp) = swapped (diff_set (diff_elements (Some a) (Some b) sp))"
    and aligned: "renames_aligned (filter (\<lambda>e. tag e = ''key'') cs) (filter (\<lambda>e. tag e = ''key'') ns)"
  shows "diff_set (diff_children ns cs p) = swapped (diff_set (diff_children cs ns p))"
  unfolding diff_children.simps [of _ _ p] Let_def group_by_tag_lookup
proof (rule swap_extend_each)
  show "set (set_union (map fst (group_by_tag (filter_children ns)))
               (map fst (group_by_tag (filter_children cs))))
      = set (set_union (map fst (group_by_tag (filter_children cs)))
               (map fst (group_by_tag (filter_children ns))))"
    by (auto simp: set_union_set)
next
  fix tg
  let ?ol = "filter (\<lambda>e. tag e = tg) (filter_children cs)"
  let ?nl = "filter (\<lambda>e. tag e = tg) (filter_children ns)"
  have rec': "diff_set (diff_elements (Some b) (Some a) sp)
        = swapped (diff_set (diff_elements (Some a) (Some b) sp))"
    if "a \<in> set ?ol" "b \<in> set ?nl" for a b sp
  proof (rule rec)
    from that show "a \<in> set cs" "b \<in> set ns" by (auto simp: filter_children_def)
    from that show "\<not> is_mappingnumber a" "\<not> is_mappingnumber b"
      by (auto dest: filter_children_not_mappingnumber)
  qed
  have key: "diff_set (handle_plist_keys ?nl ?ol p tg) = swapped (diff_set (handle_plist_keys ?ol ?nl p tg))"
    if "tg = ''key''"
    using that aligned by (simp add: filter_children_keys swap_handle_plist_keys)
  have obj: "diff_set (handle_object_nodes ?nl ?ol p) = swapped (diff_set (handle_object_nodes ?ol ?nl p))"
    by (rule swap_step_objects) (rule rec')
  have dflt: "diff_set (handle_default_children ?nl ?ol p tg)
      = swapped (diff_set (handle_default_children ?ol ?nl p tg))"
    by (rule swap_step_default) (rule rec')
  show "diff_set (if tg = ''key'' \<and> str_contains ''.plist.dict'' p
           then handle_plist_keys ?nl ?ol p tg
           else if tg = ''object'' then handle_object_nodes ?nl ?ol p
                else handle_default_children ?nl ?ol p tg)
      = swapped (diff_set (if tg = ''key'' \<and> str_contains ''.plist.dict'' p
           then handle_plist_keys ?ol ?nl p tg
           else if tg = ''object'' then handle_object_nodes ?ol ?nl p
                else handle_default_children ?ol ?nl p tg))"
    using key obj dflt by auto
qed

lemma nodes_self: "n \<in> set (nodes n)"
  by (cases n) simp

lemma nodes_child: "c \<in> set (children n) \<Longrightarrow> set (nodes c) \<subseteq> set (nodes n)"
  by (cases n) auto

lemma all_renames_aligned_child:
  "all_renames_aligned a b \<Longrightarrow> c \<in> set (children a) \<Longrightarrow> d \<in> set (children b) \<Longrightarrow>
   all_renames_aligned c d"
  using nodes_child [of c a] nodes_child [of d b]
  by (auto simp: all_renames_aligned_def)

lemma all_renames_aligned_root:
  "all_renames_aligned a b \<Longrightarrow> renames_aligned (key_children a) (key_children b)"
  using nodes_self [of a] nodes_self [of b] by (simp add: all_renames_aligned_def)

lemma diff_elements_tags_differ:
  "tag old \<noteq> tag new \<Longrightarrow>
   diff_elements (Some old) (Some new) path = Inr (compare_tags old new path)"
  by (simp add: diff_elements_both)

lemma swap_diff_elements:
  "all_renames_aligned a b \<Longrightarrow> is_mappingnumber a = is_mappingnumber b \<Longrightarrow>
   diff_set (diff_elements (Some b) (Some a) p) = swapped (diff_set (diff_elements (Some a) (Some b) p))"
proof (induction a arbitrary: b p)
  case (Node t as x cs)
  let ?a = "Node t as x cs"
  show ?case
  proof (cases "tag ?a = tag b")
    case False
    then have ab: "diff_elements (Some ?a) (Some b) p = Inr (compare_tags ?a b p)"
      by (rule diff_elements_tags_differ)
    from False have "tag b \<noteq> tag ?a" by simp
    then have ba: "diff_elements (Some b) (Some ?a) p = Inr (compare_tags b ?a p)"
      by (rule diff_elements_tags_differ)
    have "diff_set (diff_elements (Some b) (Some ?a) p) = Some (set (compare_tags b ?a p))"
      by (simp only: ba diff_set_Inr)
    also have "\<dots> = Some (swap_diff ` set (compare_tags ?a b p))"
      by (simp only: swap_compare_tags [of b ?a p] set_map)
    also have "\<dots> = swapped (diff_set (diff_elements (Some ?a) (Some b) p))"
      by (simp only: ab diff_set_Inr swapped_Some)
    finally show ?thesis .
  next
    case True
    have "renames_aligned (key_children ?a) (key_children b)"
      using Node.prems(1) by (rule all_renames_aligned_root)
    then have al: "renames_aligned (filter (\<lambda>e. tag e = ''key'') cs)
        (filter (\<lambda>e. tag e = ''key'') (children b))"
      by (simp add: key_children_def)
    have ch: "diff_set (diff_children (children b) cs p) = swapped (diff_set (diff_children cs (children b) p))"
    proof (rule swap_step_children [OF _ al])
      fix c d sp
      assume cd: "c \<in> set cs" "d \<in> set (children b)"
        and mn: "\<not> is_mappingnumber c" "\<not> is_mappingnumber d"
      from cd have cd': "c \<in> set (children ?a)" by simp
      have "all_renames_aligned c d"
        by (rule all_renames_aligned_child [OF Node.prems(1) cd' cd(2)])
      moreover from mn have "is_mappingnumber c = is_mappingnumber d" by simp
      ultimately show "diff_set (diff_elements (Some d) (Some c) sp)
          = swapped (diff_set (diff_elements (Some c) (Some d) sp))"
        by (rule Node.IH [OF cd(1)])
    qed
    have ct: "compare_text b ?a p = map swap_diff (compare_text ?a b p)"
      by (rule swap_compare_text [OF Node.prems(2) True])
    have ca: "set (compare_attributes b ?a p) = swap_diff ` set (compare_attributes ?a b p)"
      by (rule swap_compare_attributes)
    show ?thesis
    proof (cases "diff_children cs (children b) p")
      case (Inl e)
      with ch have "isl (diff_children (children b) cs p)"
        by (simp add: diff_set_Inl swapped_None diff_set_None_iff)
      then obtain e' where "diff_children (children b) cs p = Inl e'"
        by (cases "diff_children (children b) cs p") auto
      with Inl True show ?thesis
        by (simp add: diff_elements_both diff_set_Inl swapped_None)
    next
      case (Inr cd)
      with ch have "diff_set (diff_children (children b) cs p) = Some (swap_diff ` set cd)"
        by (simp add: diff_set_Inr swapped_Some)
      then obtain cd' where cd': "diff_children (children b) cs p = Inr cd'"
        "set cd' = swap_diff ` set cd"
        by (cases "diff_children (children b) cs p") (auto simp: diff_set_def)
      from Inr cd' True ct ca show ?thesis
        by (simp add: diff_elements_both diff_set_Inr swapped_Some image_Un)
    qed
  qed
qed

text \<open>
  Claim C6, as amended (symmetry). Let the roots of \<open>A\<close> and \<open>B\<close> be both or neither an
  \<^verbatim>\<open>attribute\<close> node named \<^verbatim>\<open>mappingnumber\<close>, and let no node of \<open>A\<close> and node of \<open>B\<close> have
  \<^verbatim>\<open>key\<close> children whose texts differ by one removed and one added value at different
  indices. Then comparing \<open>B\<close> with \<open>A\<close> gives the records of comparing \<open>A\<close> with \<open>B\<close>, each one
  swapped: the same paths, old and new value of every Mismatch exchanged, every MissingNode
  turned into an ExtraNode and vice versa; and one comparison raises exactly when the other
  does.
\<close>

theorem diff_symmetry:
  assumes "all_renames_aligned A B" and "is_mappingnumber A = is_mappingnumber B"
  shows "diff_set (diff_elements (Some B) (Some A) p)
           = swapped (diff_set (diff_elements (Some A) (Some B) p))"
  using assms by (rule swap_diff_elements)

text \<open>A rename at the same index: keys \<open>[K, M]\<close> against \<open>[K, N]\<close> below \<^verbatim>\<open>r.plist.dict\<close>.\<close>

theorem diff_symmetry_witness:
  "all_renames_aligned
     (Node ''r'' [] None [Node ''plist'' [] None [Node ''dict'' [] None
        [Node ''key'' [] (Some ''K'') [], Node ''key'' [] (Some ''M'') []]]])
     (Node ''r'' [] None [Node ''plist'' [] None [Node ''dict'' [] None
        [Node ''key'' [] (Some ''K'') [], Node ''key'' [] (Some ''N'') []]]])
   \<and> is_mappingnumber
     (Node ''r'' [] None [Node ''plist'' [] None [Node ''dict'' [] None
        [Node ''key'' [] (Some ''K'') [], Node ''key'' [] (Some ''M'') []]]])
     = is_mappingnumber
     (Node ''r'' [] None [Node ''plist'' [] None [Node ''dict'' [] None
        [Node ''key'' [] (Some ''K'') [], Node ''key'' [] (Some ''N'') []]]])
   \<and> diff_set (diff_elements
       (Some (Node ''r'' [] None [Node ''plist'' [] None [Node ''dict'' [] None
          [Node ''key'' [] (Some ''K'') [], Node ''key'' [] (Some ''N'') []]]]))
       (Some (Node ''r'' [] None [Node ''plist'' [] None [Node ''dict'' [] None
          [Node ''key'' [] (Some ''K'') [], Node ''key'' [] (Some ''M'') []]]])) ''r'')
     = swapped (diff_set (diff_elements
       (Some (Node ''r'' [] None [Node ''plist'' [] None [Node ''dict'' [] None
          [Node ''key'' [] (Some ''K'') [], Node ''key'' [] (Some ''M'') []]]]))
       (Some (Node ''r'' [] None [Node ''plist'' [] None [Node ''dict'' [] None
          [Node ''key'' [] (Some ''K'') [], Node ''key'' [] (Some ''N'') []]]])) ''r''))"
proof -
  let ?A = "Node ''r'' [] None [Node ''plist'' [] None [Node ''dict'' [] None
        [Node ''key'' [] (Some ''K'') [], Node ''key'' [] (Some ''M'') []]]]"
  let ?B = "Node ''r'' [] None [Node ''plist'' [] None [Node ''dict'' [] None
        [Node ''key'' [] (Some ''K'') [], Node ''key'' [] (Some ''N'') []]]]"
  have h1: "all_renames_aligned ?A ?B"
    by code_simp
  have h2: "is_mappingnumber ?A = is_mappingnumber ?B"
    by (simp add: is_mappingnumber_def)
  from diff_symmetry [OF h1 h2, of "''r''"] h1 h2 show ?thesis by blast
qed

text \<open>
  Claim C6 as stated fails for a rename that moves. With the keys \<open>[K, M]\<close> in \<open>A\<close> and
  \<open>[N, K]\<close> in \<open>B\<close>, the rename collapse puts its Mismatch at the index of the removed value
  in whichever list is the old one: at \<^verbatim>\<open>key[1]\<close> for \<open>A\<close> against \<open>B\<close>, at \<^verbatim>\<open>key[0]\<close> for \<open>B\<close>
  against \<open>A\<close>. The two results do not have the same paths.
\<close>

theorem diff_symmetry_counterexample:
  "diff_elements
     (Some (Node ''r'' [] None [Node ''plist'' [] None [Node ''dict'' [] None
        [Node ''key'' [] (Some ''K'') [], Node ''key'' [] (Some ''M'') []]]]))
     (Some (Node ''r'' [] None [Node ''plist'' [] None [Node ''dict'' [] None
        [Node ''key'' [] (Some ''N'') [], Node ''key'' [] (Some ''K'') []]]])) ''r''
   = Inr [(''mismatch'',
           \<lparr>d_category = ''mismatching in old.xml and new.xml'',
            d_path = ''r.plist.dict.key[1] text'',
            d_old = Some (PyStr ''M''), d_new = Some (PyStr ''N''),
            d_type = Some ''text'', d_value = None\<rparr>)]
   \<and> diff_elements
     (Some (Node ''r'' [] None [Node ''plist'' [] None [Node ''dict'' [] None
        [Node ''key'' [] (Some ''N'') [], Node ''key'' [] (Some ''K'') []]]]))
     (Some (Node ''r'' [] None [Node ''plist'' [] None [Node ''dict'' [] None
        [Node ''key'' [] (Some ''K'') [], Node ''key'' [] (Some ''M'') []]]])) ''r''
   = Inr [(''mismatch'',
           \<lparr>d_category = ''mismatching in old.xml and new.xml'',
            d_path = ''r.plist.dict.key[0] text'',
            d_old = Some (PyStr ''N''), d_new = Some (PyStr ''M''),
            d_type = Some ''text'', d_value = None\<rparr>)]"
  by code_simp

text \<open>
  The condition on the roots is needed as well: \<^verbatim>\<open>compare_text\<close> looks at the name of the old
  node only. Below the root such nodes are filtered out before they are compared.
\<close>

lemma root_mappingnumber_asymmetry:
  "diff_elements (Some (Node ''attribute'' [(''name'', ''mappingnumber'')] (Some ''1'') []))
     (Some (Node ''attribute'' [(''name'', ''x'')] (Some ''2'') [])) ''attribute''
   = Inr [(''mismatch'',
           \<lparr>d_category = ''mismatching in old.xml and new.xml'',
            d_path = ''attribute attribute '' @ [CHR 0x27] @ ''name'' @ [CHR 0x27],
            d_old = Some (PyStr ''mappingnumber''), d_new = Some (PyStr ''x''),
            d_type = Some ''attribute'', d_value = None\<rparr>)]
   \<and> diff_elements (Some (Node ''attribute'' [(''name'', ''x'')] (Some ''2'') []))
     (Some (Node ''attribute'' [(''name'', ''mappingnumber'')] (Some ''1'') [])) ''attribute''
   = Inr [(''mismatch'',
           \<lparr>d_category = ''mismatching in old.xml and new.xml'',
            d_path = ''attribute text'',
            d_old = Some (PyStr ''2''), d_new = Some (PyStr ''1''),
            d_type = Some ''text'', d_value = None\<rparr>),
          (''mismatch'',
           \<lparr>d_category = ''mismatching in old.xml and new.xml'',
            d_path = ''attribute attribute '' @ [CHR 0x27] @ ''name'' @ [CHR 0x27],
            d_old = Some (PyStr ''x''), d_new = Some (PyStr ''mappingnumber''),
            d_type = Some ''attribute'', d_value = None\<rparr>)]"
  by code_simp

subsection \<open>Order of the object siblings\<close>

text \<open>What one node contributes does not depend on the order of its object children.\<close>

lemma objects_permuted_refl: "objects_permuted cs cs"
  by (simp add: objects_permuted_def)

lemma perm_objects_refl: "perm_objects n n"
proof (induction n)
  case (Node t a x cs)
  then have "list_all2 perm_objects cs cs" by (simp add: list_all2_same)
  then show ?case by (rule perm_objects.rearrange) (rule objects_permuted_refl)
qed

lemma perm_objects_sel:
  assumes "perm_objects n n'"
  shows "tag n' = tag n" "attrib n' = attrib n" "etext n' = etext n"
    and "\<exists>ds. list_all2 perm_objects (children n) ds \<and> objects_permuted ds (children n')"
  using assms
proof (induction rule: perm_objects.cases)
  case (rearrange cs ds cs' t a x)
  {
    case 1 from rearrange show ?case by simp
  next
    case 2 from rearrange show ?case by simp
  next
    case 3 from rearrange show ?case by simp
  next
    case 4 from rearrange show ?case by auto
  }
qed

lemma perm_objects_get: "perm_objects n n' \<Longrightarrow> get n' k = get n k"
  by (simp add: get_def perm_objects_sel)

lemma perm_objects_text_or_empty: "perm_objects n n' \<Longrightarrow> text_or_empty n' = text_or_empty n"
  by (simp add: text_or_empty_def perm_objects_sel)

lemma find_filter_implied: "(\<And>x. P x \<Longrightarrow> Q x) \<Longrightarrow> find P (filter Q xs) = find P xs"
  by (induction xs) auto

lemma find_rel:
  "list_all2 R xs ys \<Longrightarrow> (\<And>x y. R x y \<Longrightarrow> P y = P x) \<Longrightarrow> rel_option R (find P xs) (find P ys)"
  by (induction rule: list_all2_induct) auto

lemma objects_permuted_tag_filter:
  assumes "objects_permuted ds cs'" and "tg \<noteq> ''object''"
  shows "filter (\<lambda>c. tag c = tg) cs' = filter (\<lambda>c. tag c = tg) ds"
proof -
  have "filter (\<lambda>c. tag c = tg) xs = filter (\<lambda>c. tag c = tg) (filter (\<lambda>c. tag c \<noteq> ''object'') xs)"
    for xs :: "node list"
    using assms(2) by (induction xs) auto
  note split = this
  from assms(1) have "filter (\<lambda>c. tag c \<noteq> ''object'') cs' = filter (\<lambda>c. tag c \<noteq> ''object'') ds"
    by (simp add: objects_permuted_def)
  then have "filter (\<lambda>c. tag c = tg) (filter (\<lambda>c. tag c \<noteq> ''object'') cs')
      = filter (\<lambda>c. tag c = tg) (filter (\<lambda>c. tag c \<noteq> ''object'') ds)"
    by (simp only:)
  then show ?thesis
    by (simp only: split [of cs', symmetric] split [of ds, symmetric])
qed

lemma perm_objects_find_attribute:
  assumes "perm_objects n n'"
  shows "rel_option perm_objects (find_attribute n nm) (find_attribute n' nm)"
proof -
  let ?P = "\<lambda>c. tag c = ''attribute'' \<and> get c ''name'' = Some nm"
  from perm_objects_sel(4) [OF assms] obtain ds
    where ds: "list_all2 perm_objects (children n) ds" "objects_permuted ds (children n')"
    by blast
  have "find ?P (children n') = find ?P (filter (\<lambda>c. tag c = ''attribute'') (children n'))"
    by (rule find_filter_implied [symmetric]) simp
  also have "\<dots> = find ?P (filter (\<lambda>c. tag c = ''attribute'') ds)"
    using objects_permuted_tag_filter [OF ds(2), of "''attribute''"] by simp
  also have "\<dots> = find ?P ds"
    by (rule find_filter_implied) simp
  finally have "find ?P (children n') = find ?P ds" .
  moreover have "rel_option perm_objects (find ?P (children n)) (find ?P ds)"
    using ds(1) by (rule find_rel) (simp add: perm_objects_sel perm_objects_get)
  ultimately show ?thesis by (simp add: find_attribute_def)
qed

lemma perm_objects_text_strip:
  "rel_option perm_objects x y \<Longrightarrow> text_strip_if_present y = text_strip_if_present x"
  by (cases x; cases y) (simp_all add: text_strip_if_present_def perm_objects_sel)

lemma perm_objects_strip_find:
  "perm_objects n n' \<Longrightarrow>
   text_strip_if_present (find_attribute n' nm) = text_strip_if_present (find_attribute n nm)"
  by (rule perm_objects_text_strip) (rule perm_objects_find_attribute)

lemma perm_objects_get_object_key: "perm_objects n n' \<Longrightarrow> get_object_key n' = get_object_key n"
  by (simp add: get_object_key_def create_event_entity_mapping_key_def
      create_attribute_or_relationship_mapping_key_def create_mapping_model_key_def
      perm_objects_strip_find perm_objects_get perm_objects_sel Let_def cong: sum.case_cong)

lemma perm_objects_format_element: "perm_objects n n' \<Longrightarrow> format_element n' = format_element n"
  by (simp add: format_element_def format_event_entity_mapping_def perm_objects_strip_find
      perm_objects_get perm_objects_sel perm_objects_text_or_empty perm_objects_get_object_key
      Let_def cong: sum.case_cong)

lemma objects_permuted_Nil: "objects_permuted ds cs' \<Longrightarrow> cs' = [] \<longleftrightarrow> ds = []"
proof -
  have nil: "xs = [] \<longleftrightarrow> filter (\<lambda>c. tag c \<noteq> ''object'') xs = [] \<and> mset (filter (\<lambda>c. tag c = ''object'') xs) = {#}"
    for xs :: "node list"
    by (auto simp: filter_empty_conv)
  assume "objects_permuted ds cs'"
  then show ?thesis
    using nil [of cs'] nil [of ds] by (simp add: objects_permuted_def)
qed

lemma perm_objects_get_element_value:
  assumes "perm_objects n n'"
  shows "get_element_value n' = get_element_value n"
proof -
  from perm_objects_sel(4) [OF assms] obtain ds
    where ds: "list_all2 perm_objects (children n) ds" "objects_permuted ds (children n')"
    by blast
  from ds(1) have "children n = [] \<longleftrightarrow> ds = []" by (cases "children n"; cases ds) auto
  with objects_permuted_Nil [OF ds(2)] have "children n' = [] \<longleftrightarrow> children n = []" by simp
  with assms show ?thesis
    by (simp add: get_element_value_def perm_objects_text_or_empty)
qed

lemma perm_objects_check_missing:
  "rel_option perm_objects a a' \<Longrightarrow> rel_option perm_objects b b' \<Longrightarrow>
   check_missing_nodes a' b' p = check_missing_nodes a b p"
  by (cases a; cases a'; cases b; cases b')
     (simp_all add: perm_objects_format_element perm_objects_get_element_value Let_def
       cong: sum.case_cong)

lemma perm_objects_compare:
  assumes "perm_objects a a'" and "perm_objects b b'"
  shows "compare_tags a' b' p = compare_tags a b p"
    and "compare_text a' b' p = compare_text a b p"
    and "compare_attributes a' b' p = compare_attributes a b p"
  using assms
  by (simp_all add: compare_tags_def compare_text_def compare_attributes_def perm_objects_sel
      perm_objects_get perm_objects_text_or_empty)

lemma diff_set_eq_iff:
  "diff_set r = diff_set r' \<longleftrightarrow> (isl r = isl r' \<and> (\<not> isl r \<longrightarrow> set (projr r) = set (projr r')))"
  by (cases r; cases r') (auto simp: diff_set_def)

lemma diff_set_extend_each_eq:
  assumes sets: "set ys = set xs"
    and body: "\<And>x. x \<in> set xs \<Longrightarrow> diff_set (g x) = diff_set (f x)"
  shows "diff_set (extend_each g ys) = diff_set (extend_each f xs)"
proof -
  have isl_eq: "isl (g x) = isl (f x)" if "x \<in> set xs" for x
    using body [OF that] by (simp add: diff_set_eq_iff)
  have set_eq: "set (projr (g x)) = set (projr (f x))" if "x \<in> set xs" "\<not> isl (f x)" for x
    using body [OF that(1)] that(2) by (simp add: diff_set_eq_iff)
  show ?thesis
  proof (cases "\<exists>x\<in>set xs. isl (f x)")
    case True
    with isl_eq have "\<exists>x\<in>set ys. isl (g x)" using sets by auto
    with True show ?thesis by (simp add: diff_set_extend_each)
  next
    case False
    with isl_eq have no: "\<not> (\<exists>x\<in>set ys. isl (g x))" using sets by auto
    have "(\<Union>x\<in>set ys. set (projr (g x))) = (\<Union>x\<in>set xs. set (projr (f x)))"
      using False set_eq sets by auto
    with False no show ?thesis by (simp add: diff_set_extend_each)
  qed
qed

lemma perm_objects_diff_absent:
  assumes "rel_option perm_objects a a'" and "rel_option perm_objects b b'"
    and "a = None \<or> b = None"
  shows "diff_elements a' b' p = diff_elements a b p"
proof -
  from assms have "a' = None \<or> b' = None" by (cases a; cases a'; cases b; cases b') auto
  then have "diff_elements a' b' p = map_sum id fst (check_missing_nodes a' b' p)"
    by (rule diff_elements_absent)
  moreover have "diff_elements a b p = map_sum id fst (check_missing_nodes a b p)"
    using assms(3) by (rule diff_elements_absent)
  ultimately show ?thesis
    using perm_objects_check_missing [OF assms(1,2), of p] by simp
qed

lemma perm_step_default:
  assumes ol: "list_all2 perm_objects ol ol'" and nl: "list_all2 perm_objects nl nl'"
    and rec: "\<And>c c' b b' sp. c \<in> set ol \<Longrightarrow> b \<in> set nl \<Longrightarrow> perm_objects c c' \<Longrightarrow>
        perm_objects b b' \<Longrightarrow>
        diff_set (diff_elements (Some c') (Some b') sp) = diff_set (diff_elements (Some c) (Some b) sp)"
  shows "diff_set (handle_default_children ol' nl' p tg) = diff_set (handle_default_children ol nl p tg)"
proof -
  from ol nl have len: "length ol' = length ol" "length nl' = length nl"
    by (simp_all add: list_all2_lengthD)
  show ?thesis
    unfolding handle_default_children.simps [of _ _ p tg] Let_def len
  proof (rule diff_set_extend_each_eq [OF refl])
    fix i
    let ?sp = "if max (length ol) (length nl) = 1 then p @ ''.'' @ tg
               else p @ ''.'' @ tg @ ''['' @ str_nat i @ '']''"
    let ?o = "if i < length ol then Some (ol ! i) else None"
    let ?o' = "if i < length ol then Some (ol' ! i) else None"
    let ?n = "if i < length nl then Some (nl ! i) else None"
    let ?n' = "if i < length nl then Some (nl' ! i) else None"
    have ro: "rel_option perm_objects ?o ?o'"
      using ol by (auto dest: list_all2_nthD)
    have rn: "rel_option perm_objects ?n ?n'"
      using nl by (auto dest: list_all2_nthD)
    show "diff_set (diff_elements ?o' ?n' ?sp) = diff_set (diff_elements ?o ?n ?sp)"
    proof (cases "i < length ol \<and> i < length nl")
      case True
      then have "ol ! i \<in> set ol" "nl ! i \<in> set nl"
        "perm_objects (ol ! i) (ol' ! i)" "perm_objects (nl ! i) (nl' ! i)"
        using ol nl by (auto dest: list_all2_nthD)
      from rec [OF this] True show ?thesis by simp
    next
      case False
      then have "?o = None \<or> ?n = None" by auto
      from perm_objects_diff_absent [OF ro rn this] show ?thesis by simp
    qed
  qed
qed

lemma list_all2_set1: "list_all2 R xs ys \<Longrightarrow> x \<in> set xs \<Longrightarrow> \<exists>y\<in>set ys. R x y"
  by (induction rule: list_all2_induct) auto

lemma list_all2_set2: "list_all2 R xs ys \<Longrightarrow> y \<in> set ys \<Longrightarrow> \<exists>x\<in>set xs. R x y"
  by (induction rule: list_all2_induct) auto

lemma perm_objects_the_key: "perm_objects c c' \<Longrightarrow> the_key c' = the_key c"
  by (simp add: the_key_def perm_objects_get_object_key)

lemma perm_last_with_key:
  assumes rel: "list_all2 perm_objects ol ds" and sets: "set ol' = set ds"
    and dist: "distinct_keys ol"
    and ok: "\<And>c. c \<in> set ol \<Longrightarrow> \<not> isl (get_object_key c)"
  shows "rel_option perm_objects (last_with_key ol k) (last_with_key ol' k)"
proof (cases "last_with_key ol' k")
  case None
  then have "k \<notin> the_key ` set ol'" by (simp add: last_with_key_None)
  have "k \<notin> the_key ` set ol"
  proof
    assume "k \<in> the_key ` set ol"
    then obtain c where c: "c \<in> set ol" "the_key c = k" by auto
    from list_all2_set1 [OF rel c(1)] obtain d where "d \<in> set ds" "perm_objects c d" by blast
    with c sets have "k \<in> the_key ` set ol'" by (auto simp: perm_objects_the_key [symmetric])
    with \<open>k \<notin> the_key ` set ol'\<close> show False by simp
  qed
  then have "last_with_key ol k = None" by (simp add: last_with_key_None)
  with None show ?thesis by simp
next
  case (Some c')
  then have c': "c' \<in> set ds" "the_key c' = k" using sets by (auto dest: last_with_key_Some)
  from list_all2_set2 [OF rel c'(1)] obtain c where c: "c \<in> set ol" "perm_objects c c'" by blast
  then have ck: "the_key c = k" using c'(2) by (simp add: perm_objects_the_key)
  then have "k \<in> the_key ` set ol" using c(1) by auto
  then obtain c0 where c0: "last_with_key ol k = Some c0"
    by (cases "last_with_key ol k") (auto simp: last_with_key_None)
  then have c0': "c0 \<in> set ol" "the_key c0 = k" by (auto dest: last_with_key_Some)
  from ok c(1) c0'(1) have "\<not> isl (get_object_key c)" "\<not> isl (get_object_key c0)" by auto
  with ck c0'(2) have "get_object_key c = get_object_key c0"
    using the_key_eq [of c c0] by simp
  with dist c(1) c0'(1) \<open>\<not> isl (get_object_key c)\<close> have "c = c0"
    by (auto simp: distinct_keys_def)
  with c(2) c0 Some show ?thesis by simp
qed

lemma perm_object_pair:
  assumes co: "rel_option perm_objects co co'" and cn: "rel_option perm_objects cn cn'"
    and rec: "\<And>c c' b b' sp. co = Some c \<Longrightarrow> cn = Some b \<Longrightarrow> co' = Some c' \<Longrightarrow> cn' = Some b' \<Longrightarrow>
        diff_set (diff_elements (Some c') (Some b') sp) = diff_set (diff_elements (Some c) (Some b) sp)"
  shows "diff_set (object_pair p k co' cn') = diff_set (object_pair p k co cn)"
proof (cases "format_object_key k")
  case (Inl e)
  then show ?thesis by (simp add: object_pair_def)
next
  case (Inr desc)
  show ?thesis
  proof (cases co)
    case None
    with co have co': "co' = None" by (cases co') auto
    show ?thesis
    proof (cases cn)
      case n: None
      with cn have "cn' = None" by (cases cn') auto
      with n None co' show ?thesis by simp
    next
      case (Some b)
      with cn obtain b' where b': "cn' = Some b'" "perm_objects b b'" by (cases cn') auto
      with Some None co' Inr show ?thesis
        by (simp add: object_pair_def perm_objects_format_element)
    qed
  next
    case (Some c)
    with co obtain c' where c': "co' = Some c'" "perm_objects c c'" by (cases co') auto
    show ?thesis
    proof (cases cn)
      case None
      with cn have "cn' = None" by (cases cn') auto
      with None Some c' Inr show ?thesis
        by (simp add: object_pair_def perm_objects_format_element)
    next
      case b: (Some b)
      with cn obtain b' where b': "cn' = Some b'" "perm_objects b b'" by (cases cn') auto
      from rec [OF Some b c'(1) b'(1)] Some b c' b' Inr show ?thesis
        by (simp add: object_pair_def)
    qed
  qed
qed

lemma perm_step_objects:
  assumes ol: "list_all2 perm_objects ol ds_o" "mset ol' = mset ds_o"
    and nl: "list_all2 perm_objects nl ds_n" "mset nl' = mset ds_n"
    and dist: "distinct_keys ol" "distinct_keys nl"
    and rec: "\<And>c c' b b' sp. c \<in> set ol \<Longrightarrow> b \<in> set nl \<Longrightarrow> perm_objects c c' \<Longrightarrow>
        perm_objects b b' \<Longrightarrow>
        diff_set (diff_elements (Some c') (Some b') sp) = diff_set (diff_elements (Some c) (Some b) sp)"
  shows "diff_set (handle_object_nodes ol' nl' p) = diff_set (handle_object_nodes ol nl p)"
proof -
  from ol(2) nl(2) have sets: "set ol' = set ds_o" "set nl' = set ds_n"
    by (auto dest: mset_eq_setD)
  have key_o: "the_key ` set ol' = the_key ` set ol"
    using list_all2_set1 [OF ol(1)] list_all2_set2 [OF ol(1)] sets(1)
    by (auto simp: image_iff perm_objects_the_key) (metis perm_objects_the_key)+
  have key_n: "the_key ` set nl' = the_key ` set nl"
    using list_all2_set1 [OF nl(1)] list_all2_set2 [OF nl(1)] sets(2)
    by (auto simp: image_iff perm_objects_the_key) (metis perm_objects_the_key)+
  have raise_o: "(\<exists>c\<in>set ol'. isl (get_object_key c)) = (\<exists>c\<in>set ol. isl (get_object_key c))"
    using list_all2_set1 [OF ol(1)] list_all2_set2 [OF ol(1)] sets(1)
    by (metis perm_objects_get_object_key)
  have raise_n: "(\<exists>c\<in>set nl'. isl (get_object_key c)) = (\<exists>c\<in>set nl. isl (get_object_key c))"
    using list_all2_set1 [OF nl(1)] list_all2_set2 [OF nl(1)] sets(2)
    by (metis perm_objects_get_object_key)
  have raises: "(\<exists>c\<in>set ol' \<union> set nl'. isl (get_object_key c))
      = (\<exists>c\<in>set ol \<union> set nl. isl (get_object_key c))"
    using raise_o raise_n by (simp add: bex_Un)
  show ?thesis
  proof (cases "\<exists>c\<in>set ol \<union> set nl. isl (get_object_key c)")
    case True
    with raises show ?thesis by (simp add: handle_object_nodes_set)
  next
    case False
    then have ok: "\<not> isl (get_object_key c)" if "c \<in> set ol \<union> set nl" for c
      using that by blast
    have "diff_set (extend_each (\<lambda>k. object_pair p k (last_with_key ol' k) (last_with_key nl' k))
              (set_union (map the_key ol') (map the_key nl')))
        = diff_set (extend_each (\<lambda>k. object_pair p k (last_with_key ol k) (last_with_key nl k))
              (set_union (map the_key ol) (map the_key nl)))"
    proof (rule diff_set_extend_each_eq)
      show "set (set_union (map the_key ol') (map the_key nl'))
          = set (set_union (map the_key ol) (map the_key nl))"
        by (simp add: set_union_set key_o key_n)
    next
      fix k
      have lo: "rel_option perm_objects (last_with_key ol k) (last_with_key ol' k)"
        by (rule perm_last_with_key [OF ol(1) sets(1) dist(1)]) (simp add: ok)
      have ln: "rel_option perm_objects (last_with_key nl k) (last_with_key nl' k)"
        by (rule perm_last_with_key [OF nl(1) sets(2) dist(2)]) (simp add: ok)
      show "diff_set (object_pair p k (last_with_key ol' k) (last_with_key nl' k))
          = diff_set (object_pair p k (last_with_key ol k) (last_with_key nl k))"
      proof (rule perm_object_pair [OF lo ln])
        fix c c' b b' sp
        assume eqs: "last_with_key ol k = Some c" "last_with_key nl k = Some b"
          "last_with_key ol' k = Some c'" "last_with_key nl' k = Some b'"
        then have "c \<in> set ol" "b \<in> set nl" by (auto dest: last_with_key_Some)
        moreover from lo ln eqs have "perm_objects c c'" "perm_objects b b'" by simp_all
        ultimately show "diff_set (diff_elements (Some c') (Some b') sp)
            = diff_set (diff_elements (Some c) (Some b) sp)" by (rule rec)
      qed
    qed
    with False raises show ?thesis by (simp only: handle_object_nodes_set if_False)
  qed
qed

lemma list_all2_filter_rel:
  "list_all2 R xs ys \<Longrightarrow> (\<And>x y. R x y \<Longrightarrow> P y = P x) \<Longrightarrow>
   list_all2 R (filter P xs) (filter P ys)"
  by (induction rule: list_all2_induct) auto

lemma filter_children_kept: "filter_children cs = filter kept_child cs"
  unfolding filter_children_def kept_child_def [abs_def] Let_def by (rule refl)

lemma perm_objects_kept: "perm_objects c d \<Longrightarrow> kept_child d = kept_child c"
  by (simp add: kept_child_def perm_objects_sel perm_objects_get)

lemma kept_object: "tag c = ''object'' \<Longrightarrow> kept_child c"
  by (simp add: kept_child_def)

lemma objects_permuted_set: "objects_permuted ds cs' \<Longrightarrow> set cs' = set ds"
proof -
  have split: "set xs = set (filter (\<lambda>c. tag c \<noteq> ''object'') xs) \<union> set (filter (\<lambda>c. tag c = ''object'') xs)"
    for xs :: "node list" by auto
  assume "objects_permuted ds cs'"
  then have a: "filter (\<lambda>c. tag c \<noteq> ''object'') cs' = filter (\<lambda>c. tag c \<noteq> ''object'') ds"
    and m: "mset (filter (\<lambda>c. tag c = ''object'') cs') = mset (filter (\<lambda>c. tag c = ''object'') ds)"
    by (simp_all add: objects_permuted_def)
  from m have b: "set (filter (\<lambda>c. tag c = ''object'') cs') = set (filter (\<lambda>c. tag c = ''object'') ds)"
    by (rule mset_eq_setD)
  have "set cs' = set (filter (\<lambda>c. tag c \<noteq> ''object'') cs') \<union> set (filter (\<lambda>c. tag c = ''object'') cs')"
    by (rule split)
  also have "\<dots> = set (filter (\<lambda>c. tag c \<noteq> ''object'') ds) \<union> set (filter (\<lambda>c. tag c = ''object'') ds)"
    by (simp only: a b)
  also have "\<dots> = set ds"
    by (rule split [symmetric])
  finally show ?thesis .
qed

lemma perm_objects_key_texts: "list_all2 perm_objects xs ys \<Longrightarrow> key_texts ys = key_texts xs"
  by (induction rule: list_all2_induct) (simp_all add: key_texts_def perm_objects_text_or_empty)

lemma perm_objects_tags: "list_all2 perm_objects xs ys \<Longrightarrow> tag ` set ys = tag ` set xs"
  by (induction rule: list_all2_induct) (simp_all add: perm_objects_sel)

lemma group_tags: "set (map fst (group_by_tag xs)) = tag ` set xs"
  using group_keys_set [of "[]" xs] by (simp add: group_by_tag_def)

lemma perm_step_children:
  assumes cs: "list_all2 perm_objects cs ds_c" "objects_permuted ds_c cs'"
    and ns: "list_all2 perm_objects ns ds_n" "objects_permuted ds_n ns'"
    and dist: "distinct_keys (filter (\<lambda>c. tag c = ''object'') cs)"
      "distinct_keys (filter (\<lambda>c. tag c = ''object'') ns)"
    and rec: "\<And>c c' b b' sp. c \<in> set cs \<Longrightarrow> b \<in> set ns \<Longrightarrow> perm_objects c c' \<Longrightarrow>
        perm_objects b b' \<Longrightarrow>
        diff_set (diff_elements (Some c') (Some b') sp) = diff_set (diff_elements (Some c) (Some b) sp)"
  shows "diff_set (diff_children cs' ns' p) = diff_set (diff_children cs ns p)"
  unfolding diff_children.simps [of _ _ p] Let_def group_by_tag_lookup
proof (rule diff_set_extend_each_eq)
  have fc: "list_all2 perm_objects (filter_children cs) (filter_children ds_c)"
    "list_all2 perm_objects (filter_children ns) (filter_children ds_n)"
    unfolding filter_children_kept
    using cs(1) ns(1) by (auto intro: list_all2_filter_rel simp: perm_objects_kept)
  have "set (filter_children cs') = set (filter_children ds_c)"
    "set (filter_children ns') = set (filter_children ds_n)"
    unfolding filter_children_kept
    using objects_permuted_set [OF cs(2)] objects_permuted_set [OF ns(2)] by simp_all
  then have "tag ` set (filter_children cs') = tag ` set (filter_children cs)"
    "tag ` set (filter_children ns') = tag ` set (filter_children ns)"
    using perm_objects_tags [OF fc(1)] perm_objects_tags [OF fc(2)] by simp_all
  then show "set (set_union (map fst (group_by_tag (filter_children cs')))
                 (map fst (group_by_tag (filter_children ns'))))
      = set (set_union (map fst (group_by_tag (filter_children cs)))
                 (map fst (group_by_tag (filter_children ns))))"
    by (simp only: set_union_set group_tags)
next
  fix tg
  let ?ol = "filter (\<lambda>e. tag e = tg) (filter_children cs)"
  let ?nl = "filter (\<lambda>e. tag e = tg) (filter_children ns)"
  let ?ol' = "filter (\<lambda>e. tag e = tg) (filter_children cs')"
  let ?nl' = "filter (\<lambda>e. tag e = tg) (filter_children ns')"
  let ?od = "filter (\<lambda>e. tag e = tg) (filter_children ds_c)"
  let ?nd = "filter (\<lambda>e. tag e = tg) (filter_children ds_n)"
  have rel: "list_all2 perm_objects ?ol ?od" "list_all2 perm_objects ?nl ?nd"
    unfolding filter_children_kept
    using cs(1) ns(1)
    by (auto intro!: list_all2_filter_rel simp: perm_objects_kept perm_objects_sel)
  have rec': "diff_set (diff_elements (Some c') (Some b') sp) = diff_set (diff_elements (Some c) (Some b) sp)"
    if "c \<in> set ?ol" "b \<in> set ?nl" "perm_objects c c'" "perm_objects b b'" for c c' b b' sp
    using that by (intro rec) (auto simp: filter_children_def)
  show "diff_set (if tg = ''key'' \<and> str_contains ''.plist.dict'' p
           then handle_plist_keys ?ol' ?nl' p tg
           else if tg = ''object'' then handle_object_nodes ?ol' ?nl' p
                else handle_default_children ?ol' ?nl' p tg)
      = diff_set (if tg = ''key'' \<and> str_contains ''.plist.dict'' p
           then handle_plist_keys ?ol ?nl p tg
           else if tg = ''object'' then handle_object_nodes ?ol ?nl p
                else handle_default_children ?ol ?nl p tg)"
  proof (cases "tg = ''object''")
    case True
    have obj_fc: "filter (\<lambda>e. tag e = ''object'') (filter_children xs) = filter (\<lambda>e. tag e = ''object'') xs"
      for xs
      unfolding filter_children_kept by (auto intro: filter_cong simp: kept_object)
    have m: "mset ?ol' = mset ?od" "mset ?nl' = mset ?nd"
      using cs(2) ns(2) True by (simp_all add: obj_fc objects_permuted_def)
    have d: "distinct_keys ?ol" "distinct_keys ?nl"
      using dist True by (simp_all add: obj_fc)
    have "diff_set (handle_object_nodes ?ol' ?nl' p) = diff_set (handle_object_nodes ?ol ?nl p)"
      by (rule perm_step_objects [OF rel(1) m(1) rel(2) m(2) d rec'])
    with True show ?thesis by simp
  next
    case False
    have comm: "filter (\<lambda>e. tag e = tg) (filter kept_child xs)
        = filter kept_child (filter (\<lambda>e. tag e = tg) xs)" for xs
      by (induction xs) auto
    have same: "?ol' = ?od" "?nl' = ?nd"
      unfolding filter_children_kept
      by (simp_all only: comm objects_permuted_tag_filter [OF cs(2) False]
          objects_permuted_tag_filter [OF ns(2) False])
    have kt: "key_texts ?ol' = key_texts ?ol" "key_texts ?nl' = key_texts ?nl"
      using perm_objects_key_texts [OF rel(1)] perm_objects_key_texts [OF rel(2)] same by simp_all
    have plist: "handle_plist_keys ?ol' ?nl' p tg = handle_plist_keys ?ol ?nl p tg"
      by (simp only: handle_plist_keys_def kt)
    have dflt: "diff_set (handle_default_children ?ol' ?nl' p tg)
        = diff_set (handle_default_children ?ol ?nl p tg)"
      unfolding same by (rule perm_step_default [OF rel rec'])
    from False plist dflt show ?thesis by auto
  qed
qed

lemma diff_set_case_append:
  assumes "diff_set r' = diff_set r"
  shows "diff_set (case r' of Inl e \<Rightarrow> Inl e | Inr cd \<Rightarrow> Inr (xs @ cd))
       = diff_set (case r of Inl e \<Rightarrow> Inl e | Inr cd \<Rightarrow> Inr (xs @ cd))"
  using assms by (cases r; cases r') (auto simp: diff_set_def)

lemma keys_distinct_children:
  "keys_distinct n \<Longrightarrow> distinct_keys (filter (\<lambda>c. tag c = ''object'') (children n))"
  "keys_distinct n \<Longrightarrow> c \<in> set (children n) \<Longrightarrow> keys_distinct c"
  by (cases n; simp)+

lemma perm_diff_elements:
  "perm_objects a a' \<Longrightarrow> perm_objects b b' \<Longrightarrow> keys_distinct a \<Longrightarrow> keys_distinct b \<Longrightarrow>
   diff_set (diff_elements (Some a') (Some b') p) = diff_set (diff_elements (Some a) (Some b) p)"
proof (induction a arbitrary: a' b b' p)
  case (Node t as x cs)
  let ?a = "Node t as x cs"
  note ra = Node.prems(1) and rb = Node.prems(2)
  from perm_objects_sel(4) [OF ra] obtain ds_c
    where cs: "list_all2 perm_objects cs ds_c" "objects_permuted ds_c (children a')"
    by auto
  from perm_objects_sel(4) [OF rb] obtain ds_n
    where ns: "list_all2 perm_objects (children b) ds_n" "objects_permuted ds_n (children b')"
    by blast
  have dist: "distinct_keys (filter (\<lambda>c. tag c = ''object'') cs)"
    "distinct_keys (filter (\<lambda>c. tag c = ''object'') (children b))"
    using keys_distinct_children(1) [OF Node.prems(3)] keys_distinct_children(1) [OF Node.prems(4)]
    by simp_all
  have ch: "diff_set (diff_children (children a') (children b') p)
      = diff_set (diff_children cs (children b) p)"
  proof (rule perm_step_children [OF cs ns dist])
    fix c c' d d' sp
    assume c: "c \<in> set cs" and d: "d \<in> set (children b)"
      and rel: "perm_objects c c'" "perm_objects d d'"
    from c have "c \<in> set (children ?a)" by simp
    then have "keys_distinct c" by (rule keys_distinct_children(2) [OF Node.prems(3)])
    moreover have "keys_distinct d" by (rule keys_distinct_children(2) [OF Node.prems(4) d])
    ultimately show "diff_set (diff_elements (Some c') (Some d') sp)
        = diff_set (diff_elements (Some c) (Some d) sp)"
      by (rule Node.IH [OF c rel])
  qed
  have tags: "tag a' = tag ?a" "tag b' = tag b"
    using ra rb by (simp_all add: perm_objects_sel)
  note cmp = perm_objects_compare [OF ra rb, of p]
  show ?case
  proof (cases "tag ?a = tag b")
    case False
    with tags have "tag a' \<noteq> tag b'" by simp
    then have "diff_elements (Some a') (Some b') p = Inr (compare_tags a' b' p)"
      by (rule diff_elements_tags_differ)
    moreover from False have "diff_elements (Some ?a) (Some b) p = Inr (compare_tags ?a b p)"
      by (rule diff_elements_tags_differ)
    ultimately show ?thesis by (simp only: cmp)
  next
    case True
    with tags have t': "tag a' = tag b'" by simp
    have "diff_elements (Some a') (Some b') p
        = (case diff_children (children a') (children b') p of Inl e \<Rightarrow> Inl e
           | Inr cd \<Rightarrow> Inr ((compare_text ?a b p @ compare_attributes ?a b p) @ cd))"
      using t' by (simp add: diff_elements_both cmp cong: sum.case_cong)
    moreover have "diff_elements (Some ?a) (Some b) p
        = (case diff_children cs (children b) p of Inl e \<Rightarrow> Inl e
           | Inr cd \<Rightarrow> Inr ((compare_text ?a b p @ compare_attributes ?a b p) @ cd))"
      using True by (simp add: diff_elements_both cong: sum.case_cong)
    ultimately show ?thesis
      using diff_set_case_append [OF ch] by (simp only:)
  qed
qed

text \<open>
  Claim C3, as amended (order invariance of the key-based strategy). For trees in which, at
  every node, \<^verbatim>\<open>object\<close> children that derive the same key are equal, permuting the
  \<^verbatim>\<open>object\<close>-tagged sibling lists on either side, at any depth, leaves the outcome of
  \<open>diff_elements\<close> unchanged: the same set of records, or an exception in both cases.
\<close>

theorem object_order_invariant:
  assumes "perm_objects A A'" and "perm_objects B B'"
    and "keys_distinct A" and "keys_distinct B"
  shows "diff_set (diff_elements (Some A') (Some B') p) = diff_set (diff_elements (Some A) (Some B) p)"
  using assms by (rule perm_diff_elements)

text \<open>Two mapping-model objects with the source model paths \<open>X\<close> and \<open>Y\<close>, swapped.\<close>

theorem object_order_invariant_witness:
  "perm_objects
     (Node ''database'' [] None
        [Node ''object'' [(''type'', ''XDDEVMAPPINGMODEL'')] None
           [Node ''attribute'' [(''name'', ''sourcemodelpath'')] (Some ''X'') []],
         Node ''object'' [(''type'', ''XDDEVMAPPINGMODEL'')] None
           [Node ''attribute'' [(''name'', ''sourcemodelpath'')] (Some ''Y'') []]])
     (Node ''database'' [] None
        [Node ''object'' [(''type'', ''XDDEVMAPPINGMODEL'')] None
           [Node ''attribute'' [(''name'', ''sourcemodelpath'')] (Some ''Y'') []],
         Node ''object'' [(''type'', ''XDDEVMAPPINGMODEL'')] None
           [Node ''attribute'' [(''name'', ''sourcemodelpath'')] (Some ''X'') []]])
   \<and> perm_objects
     (Node ''database'' [] None
        [Node ''object'' [(''type'', ''XDDEVMAPPINGMODEL'')] None
           [Node ''attribute'' [(''name'', ''sourcemodelpath'')] (Some ''Y'') []]])
     (Node ''database'' [] None
        [Node ''object'' [(''type'', ''XDDEVMAPPINGMODEL'')] None
           [Node ''attribute'' [(''name'', ''sourcemodelpath'')] (Some ''Y'') []]])
   \<and> keys_distinct
     (Node ''database'' [] None
        [Node ''object'' [(''type'', ''XDDEVMAPPINGMODEL'')] None
           [Node ''attribute'' [(''name'', ''sourcemodelpath'')] (Some ''X'') []],
         Node ''object'' [(''type'', ''XDDEVMAPPINGMODEL'')] None
           [Node ''attribute'' [(''name'', ''sourcemodelpath'')] (Some ''Y'') []]])
   \<and> keys_distinct
     (Node ''database'' [] None
        [Node ''object'' [(''type'', ''XDDEVMAPPINGMODEL'')] None
           [Node ''attribute'' [(''name'', ''sourcemodelpath'')] (Some ''Y'') []]])
   \<and> diff_set (diff_elements
       (Some (Node ''database'' [] None
          [Node ''object'' [(''type'', ''XDDEVMAPPINGMODEL'')] None
             [Node ''attribute'' [(''name'', ''sourcemodelpath'')] (Some ''Y'') []],
           Node ''object'' [(''type'', ''XDDEVMAPPINGMODEL'')] None
             [Node ''attribute'' [(''name'', ''sourcemodelpath'')] (Some ''X'') []]]))
       (Some (Node ''database'' [] None
          [Node ''object'' [(''type'', ''XDDEVMAPPINGMODEL'')] None
             [Node ''attribute'' [(''name'', ''sourcemodelpath'')] (Some ''Y'') []]])) ''database'')
     = diff_set (diff_elements
       (Some (Node ''database'' [] None
          [Node ''object'' [(''type'', ''XDDEVMAPPINGMODEL'')] None
             [Node ''attribute'' [(''name'', ''sourcemodelpath'')] (Some ''X'') []],
           Node ''object'' [(''type'', ''XDDEVMAPPINGMODEL'')] None
             [Node ''attribute'' [(''name'', ''sourcemodelpath'')] (Some ''Y'') []]]))
       (Some (Node ''database'' [] None
          [Node ''object'' [(''type'', ''XDDEVMAPPINGMODEL'')] None
             [Node ''attribute'' [(''name'', ''sourcemodelpath'')] (Some ''Y'') []]])) ''database'')"
proof -
  let ?X = "Node ''object'' [(''type'', ''XDDEVMAPPINGMODEL'')] None
           [Node ''attribute'' [(''name'', ''sourcemodelpath'')] (Some ''X'') []]"
  let ?Y = "Node ''object'' [(''type'', ''XDDEVMAPPINGMODEL'')] None
           [Node ''attribute'' [(''name'', ''sourcemodelpath'')] (Some ''Y'') []]"
  have "list_all2 perm_objects [?X, ?Y] [?X, ?Y]"
    by (simp add: perm_objects_refl)
  moreover have "objects_permuted [?X, ?Y] [?Y, ?X]"
    by (simp add: objects_permuted_def)
  ultimately have h1: "perm_objects (Node ''database'' [] None [?X, ?Y]) (Node ''database'' [] None [?Y, ?X])"
    by (rule perm_objects.rearrange)
  have h2: "perm_objects (Node ''database'' [] None [?Y]) (Node ''database'' [] None [?Y])"
    by (rule perm_objects_refl)
  have h3: "keys_distinct (Node ''database'' [] None [?X, ?Y])"
    by code_simp
  have h4: "keys_distinct (Node ''database'' [] None [?Y])"
    by code_simp
  from object_order_invariant [OF h1 h2 h3 h4, of "''database''"] h1 h2 h3 h4
  show ?thesis by blast
qed

text \<open>
  Claim C3 as stated fails when two different siblings derive the same key, since the
  dictionary keeps the last of them. Two objects of an unrecognised type with the texts
  \<open>x\<close> and \<open>y\<close> against one object with the text \<open>y\<close>: in the order \<open>x, y\<close> the comparison
  finds no difference, in the order \<open>y, x\<close> it reports a text mismatch.
\<close>

theorem object_order_counterexample:
  "perm_objects
     (Node ''database'' [] None
        [Node ''object'' [] (Some ''x'') [], Node ''object'' [] (Some ''y'') []])
     (Node ''database'' [] None
        [Node ''object'' [] (Some ''y'') [], Node ''object'' [] (Some ''x'') []])
   \<and> diff_elements
        (Some (Node ''database'' [] None
           [Node ''object'' [] (Some ''x'') [], Node ''object'' [] (Some ''y'') []]))
        (Some (Node ''database'' [] None [Node ''object'' [] (Some ''y'') []])) ''database''
       = Inr []
   \<and> diff_elements
        (Some (Node ''database'' [] None
           [Node ''object'' [] (Some ''y'') [], Node ''object'' [] (Some ''x'') []]))
        (Some (Node ''database'' [] None [Node ''object'' [] (Some ''y'') []])) ''database''
       = Inr [(''mismatch'',
               \<lparr>d_category = ''mismatching in old.xml and new.xml'',
                d_path = ''database.object[('' @ [CHR 0x27] @ ''object'' @ [CHR 0x27] @ '',)] text'',
                d_old = Some (PyStr ''x''), d_new = Some (PyStr ''y''),
                d_type = Some ''text'', d_value = None\<rparr>)]"
proof -
  let ?x = "Node ''object'' [] (Some ''x'') []"
  let ?y = "Node ''object'' [] (Some ''y'') []"
  have "list_all2 perm_objects [?x, ?y] [?x, ?y]"
    by (simp add: perm_objects_refl)
  moreover have "objects_permuted [?x, ?y] [?y, ?x]"
    by (simp add: objects_permuted_def)
  ultimately have "perm_objects (Node ''database'' [] None [?x, ?y]) (Node ''database'' [] None [?y, ?x])"
    by (rule perm_objects.rearrange)
  moreover have "diff_elements (Some (Node ''database'' [] None [?x, ?y]))
        (Some (Node ''database'' [] None [?y])) ''database'' = Inr []"
    by code_simp
  moreover have "diff_elements (Some (Node ''database'' [] None [?y, ?x]))
        (Some (Node ''database'' [] None [?y])) ''database''
       = Inr [(''mismatch'',
               \<lparr>d_category = ''mismatching in old.xml and new.xml'',
                d_path = ''database.object[('' @ [CHR 0x27] @ ''object'' @ [CHR 0x27] @ '',)] text'',
                d_old = Some (PyStr ''x''), d_new = Some (PyStr ''y''),
                d_type = Some ''text'', d_value = None\<rparr>)]"
    by code_simp
  ultimately show ?thesis by blast
qed

subsection \<open>Tag mismatch\<close>

text \<open>
  Claim C7 (tag-mismatch short-circuit). For two present nodes whose tags differ,
  \<open>diff_elements\<close> returns exactly one record: the mismatch of subtype \<open>tag\<close> at
  \<open>path @ '' tag''\<close> with the old and the new tag name. The result holds no text, attribute
  or child record, whatever the texts, attributes and children of the two nodes are.
\<close>

theorem tag_mismatch_short_circuit:
  "tag old \<noteq> tag new \<Longrightarrow>
   diff_elements (Some old) (Some new) path =
     Inr [(TYPE_MISMATCH,
           \<lparr>d_category = CATEGORY_MISMATCH, d_path = path @ '' tag'',
            d_old = Some (PyStr (tag old)), d_new = Some (PyStr (tag new)),
            d_type = Some ''tag'', d_value = None\<rparr>)]"
  by (simp add: diff_elements_both compare_tags_def info_def)

text \<open>The spec's example: \<^verbatim>\<open><a>1</a>\<close> against \<^verbatim>\<open><b>1</b>\<close> at the same path.\<close>

theorem tag_mismatch_short_circuit_witness:
  "tag (Node ''a'' [] (Some ''1'') []) \<noteq> tag (Node ''b'' [] (Some ''1'') []) \<and>
   diff_elements (Some (Node ''a'' [] (Some ''1'') [])) (Some (Node ''b'' [] (Some ''1'') [])) ''p'' =
     Inr [(''mismatch'',
           \<lparr>d_category = ''mismatching in old.xml and new.xml'', d_path = ''p tag'',
            d_old = Some (PyStr ''a''), d_new = Some (PyStr ''b''),
            d_type = Some ''tag'', d_value = None\<rparr>)]"
  using tag_mismatch_short_circuit
    [of "Node ''a'' [] (Some ''1'') []" "Node ''b'' [] (Some ''1'') []" "''p''"]
  by (simp add: TYPE_MISMATCH_def CATEGORY_MISMATCH_def)

end
